theory Spec2Isabelle
  imports Main "HOL-Library.Word"
begin

unbundle bit_operations_syntax

section \<open>The Pisound SPI link layer (sound/soc/bcm/pisound.c)\<close>

text \<open>
  A shallow embedding of the transport part of the Pisound driver: the 16-bit slot
  exchange (\<open>spi_transfer\<close>, \<open>spi_transfer16\<close>), the handshake
  (\<open>spi_read_bytes\<close>, \<open>spi_read_info\<close>), the LED request
  (\<open>pisnd_spi_flash_leds\<close>) and the deferred work body
  (\<open>pisnd_work_handler\<close>).

  C types: \<open>uint8_t\<close> and \<open>char\<close> are \<open>8 word\<close> (\<open>char\<close> is unsigned
  on the ARM targets of this card and the kernel is built with unsigned \<open>char\<close>),
  \<open>uint16_t\<close> is \<open>16 word\<close>, \<open>int\<close> is \<open>32 word\<close> read with \<open>sint\<close>,
  and \<open>unsigned long\<close> is \<open>'l word\<close>, so that one development covers the 32-bit
  and the 64-bit kernel. Return codes are \<open>int\<close>.
\<close>

type_synonym u8 = "8 word"
type_synonym u16 = "16 word"
type_synonym s32 = "32 word"

definition EINVAL :: int where
  "EINVAL = 22"

definition FIFO_SIZE :: nat where
  "FIFO_SIZE = 4096"

subsection \<open>The platform: kernel configuration and hardware\<close>

text \<open>
  What the driver cannot decide is a parameter: the kernel's \<open>HZ\<close>, the answer of the
  card to the k-th \<open>spi_sync\<close> message (\<open>None\<close> when \<open>spi_sync\<close> returns an
  error), the value of \<open>jiffies\<close> at the k-th read and the level of the
  \<open>data_available\<close> line at the k-th read.
\<close>

record (overloaded) 'l platform =
  HZ :: nat
  spi_sync_rx :: "nat \<Rightarrow> u8 list option"
  jiffies_at :: "nat \<Rightarrow> 'l word"
  data_available_at :: "nat \<Rightarrow> bool"

subsection \<open>The driver's globals\<close>

text \<open>
  The module-level variables of the source, under their names. \<open>pisnd_spi_device\<close> and
  \<open>pisnd_workqueue\<close> record whether the pointer is non-NULL. The rawmidi output
  substream is the list of bytes waiting in its buffer; the only receive callback the
  source ever installs is \<open>pisnd_midi_recv_callback\<close>, so \<open>g_recvCallback\<close> is a
  flag and \<open>midi_received\<close> collects what the callback hands to the MIDI layer.
  \<open>spi_log\<close> is the list of transmit buffers given to \<open>spi_sync\<close> so far;
  \<open>jiffies_reads\<close> and \<open>gpio_reads\<close> count the reads of the clock and of the line.
\<close>

record driver =
  pisnd_spi_device :: bool
  pisnd_workqueue :: bool
  work_pending :: bool
  g_serial_num :: "u8 list"
  g_id :: "u8 list"
  g_fw_version :: "u8 list"
  g_hw_version :: "u8 list"
  g_ledFlashDuration :: u8
  g_ledFlashDurationChanged :: bool
  spi_fifo_in :: "u8 list"
  spi_fifo_out :: "u8 list"
  g_midi_output_substream :: "u8 list option"
  g_recvCallback :: bool
  midi_received :: "u8 list"
  spi_log :: "u8 list list"
  jiffies_reads :: nat
  gpio_reads :: nat

subsection \<open>Slot exchange\<close>

text \<open>
  \<open>spi_transfer\<close>: the receive buffer is zeroed first, and stays zeroed when the device
  pointer is NULL or \<open>spi_sync\<close> fails. The card clocks \<open>len\<close> bytes; an answer
  shorter than \<open>len\<close> leaves the zeroes of the \<open>memset\<close> in the rest.
\<close>

definition spi_transfer :: "'l platform \<Rightarrow> u8 list \<Rightarrow> nat \<Rightarrow> driver \<Rightarrow> u8 list \<times> driver" where
  "spi_transfer p txbuf len s =
     (if \<not> pisnd_spi_device s then (replicate len 0, s)
      else
        let s' = s\<lparr>spi_log := spi_log s @ [txbuf]\<rparr> in
        case spi_sync_rx p (length (spi_log s)) of
          None \<Rightarrow> (replicate len 0, s')
        | Some rx \<Rightarrow> (take len (rx @ replicate len 0), s'))"

definition spi_transfer16 :: "'l platform \<Rightarrow> u16 \<Rightarrow> driver \<Rightarrow> u16 \<times> driver" where
  "spi_transfer16 p val s =
     (if \<not> pisnd_spi_device s then (0, s)
      else
        let txbuf = [ucast (drop_bit 8 val), ucast (val AND 0xff)];
            (rxbuf, s') = spi_transfer p txbuf 2 s
        in (push_bit 8 (ucast (rxbuf ! 0)) OR ucast (rxbuf ! 1), s'))"

subsection \<open>Reading one length-prefixed record\<close>

text \<open>
  The \<open>for\<close> loop of \<open>spi_read_bytes\<close>, from index \<open>i\<close>. The result is the return
  code, the final index, the destination and the driver state.
\<close>

function read_payload ::
  "'l platform \<Rightarrow> u8 \<Rightarrow> u8 \<Rightarrow> u8 list \<Rightarrow> driver \<Rightarrow> int \<times> u8 \<times> u8 list \<times> driver" where
  "read_payload p sz i dst s =
     (if i < sz then
        (let (rx, s') = spi_transfer16 p 0 s in
         if drop_bit 8 rx = 0 then (- EINVAL, i, dst, s')
         else read_payload p sz (i + 1) (dst[unat i := ucast (rx AND 0xff)]) s')
      else (0, i, dst, s))"
  by pat_completeness auto
termination
proof (relation "measure (\<lambda>(p, sz, i, dst, s). unat sz - unat i)")
  show "wf (measure (\<lambda>(p :: 'l platform, sz :: u8, i :: u8, dst :: u8 list, s :: driver).
    unat sz - unat i))"
    by simp
next
  fix p :: "'l platform" and sz i :: u8 and dst :: "u8 list" and s :: driver
    and x :: "u16 \<times> driver" and rx :: u16 and s' :: driver
  assume lt: "i < sz"
  then have "unat i < unat sz"
    by (simp add: word_less_nat_alt)
  moreover have "unat sz < 256"
    using unsigned_less [of sz, where ?'a = nat] by simp
  ultimately have "unat i < unat sz" and "unat (i + 1) = unat i + 1"
    by (simp_all add: unat_word_ariths)
  then show "((p, sz, i + 1, dst[unat i := ucast (rx AND 0xff)], s'), (p, sz, i, dst, s))
    \<in> measure (\<lambda>(p, sz, i, dst, s). unat sz - unat i)"
    by simp
qed

declare read_payload.simps [simp del]

text \<open>
  \<open>spi_read_bytes(dst, length, bytesRead)\<close>: the result is the return code, the
  contents of \<open>dst\<close>, the value of \<open>*bytesRead\<close> and the driver state.
\<close>

definition spi_read_bytes ::
  "'l platform \<Rightarrow> nat \<Rightarrow> driver \<Rightarrow> int \<times> u8 list \<times> u8 \<times> driver" where
  "spi_read_bytes p len s =
     (let dst = replicate len (0 :: u8);
          (rx, s1) = spi_transfer16 p 0 s
      in if drop_bit 8 rx = 0 then (- EINVAL, dst, 0, s1)
         else
           let sz = (ucast (rx AND 0xff) :: u8) in
           if unat sz > len then (- EINVAL, dst, 0, s1)
           else
             case read_payload p sz 0 dst s1 of
               (ret, i, dst', s2) \<Rightarrow>
                 if ret \<noteq> 0 then (ret, dst', 0, s2) else (0, dst', i, s2))"

subsection \<open>Strings in character arrays\<close>

text \<open>
  The formats the handshake uses, after the C library: \<open>%x\<close> prints an unsigned value
  in lower-case hexadecimal without padding, \<open>%02x\<close> pads it with zeroes to two
  digits. \<open>store_str\<close> is \<open>strcpy\<close> and \<open>sprintf\<close> into an array (the
  characters, then NUL, the rest of the array untouched); \<open>snprintf\<close> writes at most
  \<open>n - 1\<close> characters. \<open>c_string\<close> reads an array as a C string, up to the first
  NUL.
\<close>

definition hex_digit :: "nat \<Rightarrow> char" where
  "hex_digit d = ''0123456789abcdef'' ! d"

fun fmt_x :: "nat \<Rightarrow> string" where
  "fmt_x n = (if n < 16 then [hex_digit n] else fmt_x (n div 16) @ [hex_digit (n mod 16)])"

declare fmt_x.simps [simp del]

definition fmt_02x :: "nat \<Rightarrow> string" where
  "fmt_02x n = (let ds = fmt_x n in replicate (2 - length ds) (CHR ''0'') @ ds)"

definition str_bytes :: "string \<Rightarrow> u8 list" where
  "str_bytes cs = map (\<lambda>c. of_nat (of_char c)) cs"

definition c_string :: "u8 list \<Rightarrow> string" where
  "c_string bs = map (\<lambda>b. char_of (unat b)) (takeWhile (\<lambda>b. b \<noteq> 0) bs)"

definition store_str :: "u8 list \<Rightarrow> string \<Rightarrow> u8 list" where
  "store_str arr cs = str_bytes cs @ [0] @ drop (length cs + 1) arr"

definition snprintf :: "u8 list \<Rightarrow> nat \<Rightarrow> string \<Rightarrow> u8 list" where
  "snprintf arr n cs = store_str arr (take (n - 1) cs)"

definition MAX_VERSION_STR_LEN :: nat where
  "MAX_VERSION_STR_LEN = 6"

subsection \<open>The handshake\<close>

text \<open>
  The \<open>switch\<close> of \<open>spi_read_info\<close> on the position \<open>i\<close> of the record, in the
  order of the source: 0 is the firmware version, 3 the hardware version, 1 the serial
  number, 2 the id; any other position is ignored. \<open>sizeof(g_serial_num)\<close> is 11 and
  \<open>sizeof(g_id)\<close> is 25.
\<close>

definition spi_read_info_switch :: "u8 \<Rightarrow> u8 list \<Rightarrow> u8 \<Rightarrow> driver \<Rightarrow> int \<times> driver" where
  "spi_read_info_switch i buffer n s =
     (if i = 0 then
        (if n \<noteq> 2 then (- EINVAL, s)
         else (0, s\<lparr>g_fw_version :=
                 (snprintf (g_fw_version s) MAX_VERSION_STR_LEN
                    (fmt_x (unat (buffer ! 0)) @ ''.'' @ fmt_02x (unat (buffer ! 1))))
                 [MAX_VERSION_STR_LEN - 1 := 0]\<rparr>))
      else if i = 3 then
        (if n \<noteq> 2 then (- EINVAL, s)
         else (0, s\<lparr>g_hw_version :=
                 (snprintf (g_hw_version s) MAX_VERSION_STR_LEN
                    (fmt_x (unat (buffer ! 0)) @ ''.'' @ fmt_x (unat (buffer ! 1))))
                 [MAX_VERSION_STR_LEN - 1 := 0]\<rparr>))
      else if i = 1 then
        (if unat n \<ge> 11 then (- EINVAL, s)
         else (0, s\<lparr>g_serial_num := take 11 buffer\<rparr>))
      else if i = 2 then
        (if unat n * 2 \<ge> 25 then (- EINVAL, s)
         else (0, s\<lparr>g_id :=
                 store_str (g_id s)
                   (concat (map (\<lambda>b. fmt_02x (unat b)) (take (unat n) buffer)))\<rparr>))
      else (0, s))"

text \<open>
  The \<open>for\<close> loop of \<open>spi_read_info\<close>, from index \<open>i\<close>. The buffer has 257 bytes,
  of which \<open>spi_read_bytes\<close> is given the first 256.
\<close>

function read_info_loop :: "'l platform \<Rightarrow> u8 \<Rightarrow> u8 \<Rightarrow> driver \<Rightarrow> int \<times> driver" where
  "read_info_loop p count i s =
     (if i < count then
        (case spi_read_bytes p 256 s of
           (ret, dst, n, s1) \<Rightarrow>
             if ret < 0 then (ret, s1)
             else
               (case spi_read_info_switch i (dst @ [0]) n s1 of
                  (r, s2) \<Rightarrow>
                    if r \<noteq> 0 then (r, s2) else read_info_loop p count (i + 1) s2))
      else (0, s))"
  by pat_completeness auto
termination
proof (relation "measure (\<lambda>(p, count, i, s). unat count - unat i)")
  show "wf (measure (\<lambda>(p :: 'l platform, count :: u8, i :: u8, s :: driver).
    unat count - unat i))"
    by simp
next
  fix p :: "'l platform" and count i :: u8 and s s2 :: driver
  assume lt: "i < count"
  then have "unat i < unat count"
    by (simp add: word_less_nat_alt)
  moreover have "unat count < 256"
    using unsigned_less [of count, where ?'a = nat] by simp
  ultimately have "unat i < unat count" and "unat (i + 1) = unat i + 1"
    by (simp_all add: unat_word_ariths)
  then show "((p, count, i + 1, s2), (p, count, i, s))
    \<in> measure (\<lambda>(p, count, i, s). unat count - unat i)"
    by simp
qed

declare read_info_loop.simps [simp del]

definition spi_read_info :: "'l platform \<Rightarrow> driver \<Rightarrow> int \<times> driver" where
  "spi_read_info p s =
     (let s0 = s\<lparr>g_serial_num := replicate 11 0,
                 g_fw_version := replicate MAX_VERSION_STR_LEN 0,
                 g_hw_version := store_str (g_hw_version s) ''1.0'',
                 g_id := replicate 25 0\<rparr>;
          (tmp, s1) = spi_transfer16 p 0 s0
      in if drop_bit 8 tmp = 0 then (- EINVAL, s1)
         else read_info_loop p (ucast (tmp AND 0xff)) 0 s1)"

text \<open>The identity accessors return the arrays; their strings are read with \<open>c_string\<close>.\<close>

definition pisnd_spi_get_serial :: "driver \<Rightarrow> u8 list" where
  "pisnd_spi_get_serial s = g_serial_num s"

definition pisnd_spi_get_id :: "driver \<Rightarrow> u8 list" where
  "pisnd_spi_get_id s = g_id s"

definition pisnd_spi_get_fw_version :: "driver \<Rightarrow> u8 list" where
  "pisnd_spi_get_fw_version s = g_fw_version s"

definition pisnd_spi_get_hw_version :: "driver \<Rightarrow> u8 list" where
  "pisnd_spi_get_hw_version s = g_hw_version s"

subsection \<open>Byte queues\<close>

text \<open>
  Modelled from the spec: the kfifo operations of \<open>linux/kfifo.h\<close>, which is not among
  the sources. A queue is the list of its bytes, oldest first, of capacity
  \<open>FIFO_SIZE\<close>: \<open>kfifo_put\<close> appends if capacity remains and is a no-op returning
  false if the queue is full, \<open>kfifo_get\<close> removes from the head if the queue is
  non-empty, \<open>kfifo_out\<close> removes up to \<open>n\<close> bytes; the others are pure queries.
\<close>

definition kfifo_len :: "u8 list \<Rightarrow> nat" where
  "kfifo_len q = length q"

definition kfifo_avail :: "u8 list \<Rightarrow> nat" where
  "kfifo_avail q = FIFO_SIZE - length q"

definition kfifo_is_empty :: "u8 list \<Rightarrow> bool" where
  "kfifo_is_empty q = (q = [])"

definition kfifo_put :: "u8 list \<Rightarrow> u8 \<Rightarrow> bool \<times> u8 list" where
  "kfifo_put q v = (if length q < FIFO_SIZE then (True, q @ [v]) else (False, q))"

definition kfifo_get :: "u8 list \<Rightarrow> u8 option \<times> u8 list" where
  "kfifo_get q = (case q of [] \<Rightarrow> (None, q) | v # q' \<Rightarrow> (Some v, q'))"

definition kfifo_out :: "u8 list \<Rightarrow> nat \<Rightarrow> u8 list \<times> u8 list" where
  "kfifo_out q n = (take n q, drop n q)"

text \<open>
  Modelled from the spec: \<open>snd_rawmidi_transmit_peek\<close> and
  \<open>snd_rawmidi_transmit_ack\<close> of the ALSA rawmidi core, which is not among the
  sources: peek copies up to \<open>n\<close> bytes of the output stream without consuming them,
  acknowledge consumes \<open>n\<close> bytes.
\<close>

definition snd_rawmidi_transmit_peek :: "u8 list \<Rightarrow> nat \<Rightarrow> u8 list" where
  "snd_rawmidi_transmit_peek sub n = take n sub"

definition snd_rawmidi_transmit_ack :: "u8 list \<Rightarrow> nat \<Rightarrow> u8 list" where
  "snd_rawmidi_transmit_ack sub n = drop n sub"

subsection \<open>Receiving and scheduling\<close>

definition pisnd_spi_recv :: "nat \<Rightarrow> driver \<Rightarrow> u8 list \<times> driver" where
  "pisnd_spi_recv len s =
     (case kfifo_out (spi_fifo_in s) len of
        (buffer, q) \<Rightarrow> (buffer, s\<lparr>spi_fifo_in := q\<rparr>))"

text \<open>
  \<open>pisnd_midi_recv_callback\<close> hands the inbound queue to the MIDI layer in chunks of
  at most 128 bytes (\<open>sizeof(data)\<close>) until \<open>pisnd_spi_recv\<close> returns 0.
\<close>

function pisnd_midi_recv_callback :: "driver \<Rightarrow> driver" where
  "pisnd_midi_recv_callback s =
     (case pisnd_spi_recv 128 s of
        (buffer, s') \<Rightarrow>
          if length buffer = 0 then s'
          else pisnd_midi_recv_callback (s'\<lparr>midi_received := midi_received s' @ buffer\<rparr>))"
  by pat_completeness auto
termination
  by (relation "measure (\<lambda>s. length (spi_fifo_in s))")
    (auto simp: pisnd_spi_recv_def kfifo_out_def)

declare pisnd_midi_recv_callback.simps [simp del]

definition pisnd_spi_has_more :: "'l platform \<Rightarrow> driver \<Rightarrow> bool \<times> driver" where
  "pisnd_spi_has_more p s =
     (data_available_at p (gpio_reads s), s\<lparr>gpio_reads := gpio_reads s + 1\<rparr>)"

text \<open>
  \<open>queue_work\<close> marks the work item pending; the only task is \<open>TASK_PROCESS\<close>.
\<close>

definition pisnd_schedule_process :: "driver \<Rightarrow> driver" where
  "pisnd_schedule_process s =
     (if pisnd_spi_device s \<and> pisnd_workqueue s \<and> \<not> work_pending s
      then s\<lparr>work_pending := True\<rparr> else s)"

definition pisnd_spi_flash_leds :: "u8 \<Rightarrow> driver \<Rightarrow> driver" where
  "pisnd_spi_flash_leds duration s =
     pisnd_schedule_process
       (s\<lparr>g_ledFlashDuration := duration, g_ledFlashDurationChanged := True\<rparr>)"

subsection \<open>The work handler\<close>

definition TRANSFER_SIZE :: nat where
  "TRANSFER_SIZE = 4"

definition PISOUND_OUTPUT_BUFFER_SIZE_MILLIBYTES :: int where
  "PISOUND_OUTPUT_BUFFER_SIZE_MILLIBYTES = 127 * 1000"

definition MIDI_MILLIBYTES_PER_JIFFIE :: "'l platform \<Rightarrow> nat" where
  "MIDI_MILLIBYTES_PER_JIFFIE p = (3125 * 1000) div HZ p"

text \<open>
  The state of the \<open>do\<close> loop is the driver state with the two locals that live across
  iterations: \<open>out_buffer_used_millibytes\<close> and \<open>last_transfer_at\<close>.

  First the output substream is moved to the outbound queue, one block at most, and
  only if the queue has room for a whole block.
\<close>

definition transmit_to_fifo :: "driver \<Rightarrow> driver" where
  "transmit_to_fifo s =
     (case g_midi_output_substream s of
        None \<Rightarrow> s
      | Some sub \<Rightarrow>
          if kfifo_avail (spi_fifo_out s) \<ge> TRANSFER_SIZE then
            (let midibuf = snd_rawmidi_transmit_peek sub TRANSFER_SIZE;
                 n = length midibuf
             in if n > 0 then
                  s\<lparr>spi_fifo_out := foldl (\<lambda>q v. snd (kfifo_put q v)) (spi_fifo_out s) midibuf,
                    g_midi_output_substream := Some (snd_rawmidi_transmit_ack sub n)\<rparr>
                else s)
          else s)"

text \<open>
  The body of the \<open>for\<close> loop that fills \<open>txbuf\<close>, at index \<open>i\<close>: a pending LED
  command first, else one byte of the outbound queue, else nothing.
\<close>

definition tx_slot :: "nat \<Rightarrow> u8 list \<times> driver \<times> s32 \<Rightarrow> u8 list \<times> driver \<times> s32" where
  "tx_slot i st =
     (case st of (txbuf, s, out) \<Rightarrow>
        if g_ledFlashDurationChanged s then
          (txbuf[i := 0xf0, i + 1 := g_ledFlashDuration s],
           s\<lparr>g_ledFlashDuration := 0, g_ledFlashDurationChanged := False\<rparr>,
           out)
        else
          (case kfifo_get (spi_fifo_out s) of
             (Some val, q) \<Rightarrow>
               (txbuf[i := 0x0f, i + 1 := val], s\<lparr>spi_fifo_out := q\<rparr>, out + 1000)
           | (None, q) \<Rightarrow> (txbuf, s, out)))"

definition tx_guard :: "nat \<Rightarrow> u8 list \<times> driver \<times> s32 \<Rightarrow> bool" where
  "tx_guard i st =
     (case st of (txbuf, s, out) \<Rightarrow>
        i < TRANSFER_SIZE \<and>
        (sint (out + 1000) < PISOUND_OUTPUT_BUFFER_SIZE_MILLIBYTES \<or>
         g_ledFlashDurationChanged s))"

function build_txbuf :: "nat \<Rightarrow> u8 list \<times> driver \<times> s32 \<Rightarrow> u8 list \<times> driver \<times> s32" where
  "build_txbuf i st = (if tx_guard i st then build_txbuf (i + 2) (tx_slot i st) else st)"
  by pat_completeness auto
termination
  by (relation "measure (\<lambda>(i, st). TRANSFER_SIZE - i)")
    (auto simp: tx_guard_def)

declare build_txbuf.simps [simp del]

text \<open>
  The estimate of the card's output buffer after the transfer: the time since the last
  transfer, in jiffies, times the drain rate is subtracted in \<open>unsigned long\<close> and the
  result stored back into the \<open>int\<close>; a negative result is set to 0.
\<close>

definition drain_estimate ::
  "'l::len platform \<Rightarrow> driver \<times> s32 \<times> 'l word \<Rightarrow> driver \<times> s32 \<times> 'l word" where
  "drain_estimate p ls =
     (case ls of (s, out, last_transfer_at) \<Rightarrow>
        let now = jiffies_at p (jiffies_reads s);
            s' = s\<lparr>jiffies_reads := jiffies_reads s + 1\<rparr>
        in if now \<noteq> last_transfer_at then
             (let out' = (ucast ((scast out :: 'l word) -
                            (now - last_transfer_at) * of_nat (MIDI_MILLIBYTES_PER_JIFFIE p)) :: s32)
              in (s', if sint out' < 0 then 0 else out', now))
           else (s', out, last_transfer_at))"

text \<open>The body of the \<open>for\<close> loop over \<open>rxbuf\<close>, at index \<open>i\<close>.\<close>

definition rx_slot_in :: "u8 list \<Rightarrow> driver \<times> bool \<Rightarrow> nat \<Rightarrow> driver \<times> bool" where
  "rx_slot_in rxbuf st i =
     (case st of (s, had_data) \<Rightarrow>
        if rxbuf ! i \<noteq> 0 then
          (let s1 = s\<lparr>spi_fifo_in := snd (kfifo_put (spi_fifo_in s) (rxbuf ! (i + 1)))\<rparr>;
               s2 = (if kfifo_len (spi_fifo_in s1) > 16 \<and> g_recvCallback s1
                     then pisnd_midi_recv_callback s1 else s1)
           in (s2, True))
        else (s, had_data))"

text \<open>
  The condition of the \<open>do\<close> loop, with the short-circuit evaluation of C: the line is
  read only when nothing was received and the outbound queue is empty.
\<close>

definition loop_condition :: "'l platform \<Rightarrow> bool \<Rightarrow> driver \<Rightarrow> s32 \<Rightarrow> bool \<times> driver" where
  "loop_condition p had_data s out =
     (if had_data \<or> \<not> kfifo_is_empty (spi_fifo_out s) then (True, s)
      else
        (case pisnd_spi_has_more p s of
           (has_more, s') \<Rightarrow> (has_more \<or> g_ledFlashDurationChanged s' \<or> out \<noteq> 0, s')))"

text \<open>
  One pass through the body of the \<open>do\<close> loop; the second component says whether the
  loop goes round again.
\<close>

definition work_iteration ::
  "'l::len platform \<Rightarrow> driver \<times> s32 \<times> 'l word \<Rightarrow> (driver \<times> s32 \<times> 'l word) \<times> bool" where
  "work_iteration p ls =
     (case ls of (s, out, last_transfer_at) \<Rightarrow>
        let s1 = transmit_to_fifo s;
            (txbuf, s2, out2) = build_txbuf 0 (replicate TRANSFER_SIZE 0, s1, out);
            (rxbuf, s3) = spi_transfer p txbuf TRANSFER_SIZE s2;
            (s4, out4, last4) = drain_estimate p (s3, out2, last_transfer_at);
            (s5, had_data) = foldl (rx_slot_in rxbuf) (s4, False) [0, 2];
            (again, s6) = loop_condition p had_data s5 out4
        in ((s6, out4, last4), again))"

partial_function (option) work_loop ::
  "'l::len platform \<Rightarrow> driver \<times> s32 \<times> 'l word \<Rightarrow> driver option" where
  "work_loop p ls =
     (case work_iteration p ls of
        (ls', again) \<Rightarrow> if again then work_loop p ls' else Some (fst ls'))"

text \<open>
  The state in which \<open>pisnd_work_handler\<close> enters the loop: the estimate is a local
  initialised to 0, and \<open>last_transfer_at\<close> is initialised from \<open>jiffies\<close>.
\<close>

definition work_start :: "'l::len platform \<Rightarrow> driver \<Rightarrow> driver \<times> s32 \<times> 'l word" where
  "work_start p s =
     (s\<lparr>jiffies_reads := jiffies_reads s + 1\<rparr>, 0, jiffies_at p (jiffies_reads s))"

text \<open>
  \<open>pisnd_work_handler\<close>, for the one work item the driver registers
  (\<open>pisnd_work_process\<close>). \<open>None\<close> is a handler that never returns.
\<close>

definition pisnd_work_handler :: "'l::len platform \<Rightarrow> driver \<Rightarrow> driver option" where
  "pisnd_work_handler p s =
     (if \<not> pisnd_spi_device s then Some (fst (work_start p s))
      else
        (case work_loop p (work_start p s) of
           None \<Rightarrow> None
         | Some s1 \<Rightarrow>
             Some (if \<not> kfifo_is_empty (spi_fifo_in s1) \<and> g_recvCallback s1
                   then pisnd_midi_recv_callback s1 else s1)))"

text \<open>
  The state of the loop after at most \<open>n\<close> passes: after \<open>n\<close> passes if the loop is
  still running then, and the state in which it left otherwise.
\<close>

fun work_loop_upto ::
  "nat \<Rightarrow> 'l::len platform \<Rightarrow> driver \<times> s32 \<times> 'l word \<Rightarrow> driver \<times> s32 \<times> 'l word" where
  "work_loop_upto 0 p ls = ls"
| "work_loop_upto (Suc n) p ls =
     (case work_iteration p ls of
        (ls', again) \<Rightarrow> if again then work_loop_upto n p ls' else ls')"

subsection \<open>Vocabulary of the properties\<close>

text \<open>
  The slot that the card returns to the \<open>k\<close>-th message when two bytes are exchanged
  (zero when \<open>spi_sync\<close> fails), its validity (a non-zero high byte) and its payload
  (the low byte).
\<close>

definition rx_slot :: "'l platform \<Rightarrow> nat \<Rightarrow> u16" where
  "rx_slot p k =
     (case spi_sync_rx p k of
        None \<Rightarrow> 0
      | Some rx \<Rightarrow>
          push_bit 8 (ucast (take 2 (rx @ replicate 2 0) ! 0)) OR
          ucast (take 2 (rx @ replicate 2 0) ! 1))"

definition slot_valid :: "u16 \<Rightarrow> bool" where
  "slot_valid rx = (drop_bit 8 rx \<noteq> 0)"

definition slot_payload :: "u16 \<Rightarrow> u8" where
  "slot_payload rx = ucast (rx AND 0xff)"

text \<open>
  The low bytes of a handshake of four records: the count 4, then, each after its
  length, the firmware version 01 02, the serial number ABC1234567, the id DE AD and
  the hardware version 01 00.
\<close>

definition handshake_bytes :: "u8 list" where
  "handshake_bytes =
     [4, 2, 0x01, 0x02, 10] @ str_bytes ''ABC1234567'' @ [2, 0xDE, 0xAD, 2, 0x01, 0x00]"

text \<open>
  The two slots of a transmit block as pairs of marker and value, and the durations of
  the LED commands (marker \<open>0xf0\<close>) in a list of blocks.
\<close>

definition slots_of :: "u8 list \<Rightarrow> (u8 \<times> u8) list" where
  "slots_of txbuf = [(txbuf ! 0, txbuf ! 1), (txbuf ! 2, txbuf ! 3)]"

definition led_commands :: "u8 list list \<Rightarrow> u8 list" where
  "led_commands blocks = map snd (filter (\<lambda>sl. fst sl = 0xf0) (concat (map slots_of blocks)))"

text \<open>
  The block that the next transfer of \<open>TRANSFER_SIZE\<close> bytes receives, and the driver
  state without its inbound side (the inbound queue and what was handed to the MIDI
  layer), to say what the receive path leaves alone.
\<close>

definition rx_block :: "'l platform \<Rightarrow> driver \<Rightarrow> u8 list" where
  "rx_block p s =
     (if \<not> pisnd_spi_device s then replicate TRANSFER_SIZE 0
      else
        (case spi_sync_rx p (length (spi_log s)) of
           None \<Rightarrow> replicate TRANSFER_SIZE 0
         | Some rx \<Rightarrow> take TRANSFER_SIZE (rx @ replicate TRANSFER_SIZE 0)))"

definition tx_view :: "driver \<Rightarrow> driver" where
  "tx_view s = s\<lparr>spi_fifo_in := [], midi_received := []\<rparr>"

text \<open>
  The clock, as the driver sees it: the number of jiffies between one read and the
  next, a clock whose steps are short enough for the drain of one step not to reach
  \<open>2^31\<close> millibytes (at the MIDI rate of 3125 bytes per second that is 687 seconds),
  and a clock that does not stand still for ever. A quiet card never returns a
  non-zero validity byte and never asserts its data-available line.
\<close>

definition clock_step :: "'l::len platform \<Rightarrow> nat \<Rightarrow> nat" where
  "clock_step p k = unat (jiffies_at p (Suc k) - jiffies_at p k)"

definition steady_clock :: "'l::len platform \<Rightarrow> bool" where
  "steady_clock p \<longleftrightarrow> (\<forall>k. clock_step p k * MIDI_MILLIBYTES_PER_JIFFIE p < 2 ^ 31)"

definition clock_advances :: "'l::len platform \<Rightarrow> bool" where
  "clock_advances p \<longleftrightarrow> (\<forall>k. \<exists>m. clock_step p (k + m) \<noteq> 0)"

definition quiet_card :: "'l platform \<Rightarrow> bool" where
  "quiet_card p \<longleftrightarrow>
     (\<forall>k. \<not> data_available_at p k) \<and>
     (\<forall>k rx. spi_sync_rx p k = Some rx \<longrightarrow>
        take TRANSFER_SIZE (rx @ replicate TRANSFER_SIZE 0) ! 0 = 0 \<and>
        take TRANSFER_SIZE (rx @ replicate TRANSFER_SIZE 0) ! 2 = 0)"

text \<open>
  What the loop keeps true from pass to pass under a steady clock: the estimate lies
  between 0 and the size of the card's buffer, and \<open>last_transfer_at\<close> is the value
  of the clock at the driver's previous read.
\<close>

definition loop_inv :: "'l::len platform \<Rightarrow> driver \<times> s32 \<times> 'l word \<Rightarrow> bool" where
  "loop_inv p ls =
     (case ls of (s, out, la) \<Rightarrow>
        0 \<le> sint out \<and> sint out < PISOUND_OUTPUT_BUFFER_SIZE_MILLIBYTES \<and>
        0 < jiffies_reads s \<and> la = jiffies_at p (jiffies_reads s - 1))"

text \<open>
  The states of the loop from which a quiet card lets it finish: the device is present,
  no output substream is open, no LED command is pending, and the card's buffer has
  room for everything still in the outbound queue.
\<close>

definition quiet_state :: "'l::len platform \<Rightarrow> driver \<times> s32 \<times> 'l word \<Rightarrow> bool" where
  "quiet_state p ls =
     (case ls of (s, out, la) \<Rightarrow>
        pisnd_spi_device s \<and> g_midi_output_substream s = None \<and>
        \<not> g_ledFlashDurationChanged s \<and> loop_inv p (s, out, la) \<and>
        sint out + 1000 * int (length (spi_fifo_out s)) < PISOUND_OUTPUT_BUFFER_SIZE_MILLIBYTES)"

text \<open>
  Concrete inputs for the instances below: a driver just after the card was found, a
  card that answers the handshake above with validity byte 1 in every slot, and a quiet
  card (no data, line never asserted) on a kernel with \<open>HZ\<close> = 1000 whose clock
  advances by one jiffy from one read to the next.
\<close>

definition fresh_driver :: driver where
  "fresh_driver =
     \<lparr>pisnd_spi_device = True, pisnd_workqueue = True, work_pending = False,
      g_serial_num = replicate 11 0, g_id = replicate 25 0,
      g_fw_version = replicate 6 0, g_hw_version = replicate 6 0,
      g_ledFlashDuration = 0, g_ledFlashDurationChanged = False,
      spi_fifo_in = [], spi_fifo_out = [],
      g_midi_output_substream = None, g_recvCallback = False, midi_received = [],
      spi_log = [], jiffies_reads = 0, gpio_reads = 0\<rparr>"

definition handshake_platform :: "64 platform" where
  "handshake_platform =
     \<lparr>HZ = 1000,
      spi_sync_rx = (\<lambda>k. if k < length handshake_bytes then Some [1, handshake_bytes ! k]
                          else None),
      jiffies_at = (\<lambda>k. of_nat k),
      data_available_at = (\<lambda>k. False)\<rparr>"

definition quiet_platform :: "64 platform" where
  "quiet_platform =
     \<lparr>HZ = 1000,
      spi_sync_rx = (\<lambda>k. Some [0, 0, 0, 0]),
      jiffies_at = (\<lambda>k. of_nat k),
      data_available_at = (\<lambda>k. False)\<rparr>"

definition queued_driver :: driver where
  "queued_driver = fresh_driver\<lparr>spi_fifo_out := [1, 2, 3, 4, 5, 6, 7, 8, 9, 10]\<rparr>"

text \<open>
  A quiet card on the same kernel whose clock stands at 0 when the handler starts and
  at 2061585 jiffies from the first transfer on.
\<close>

definition stalled_platform :: "64 platform" where
  "stalled_platform =
     \<lparr>HZ = 1000,
      spi_sync_rx = (\<lambda>k. Some [0, 0, 0, 0]),
      jiffies_at = (\<lambda>k. if k = 0 then 0 else 2061585),
      data_available_at = (\<lambda>k. False)\<rparr>"

text \<open>
  A quiet card on the same kernel, with a 64-bit \<open>unsigned long\<close>, whose clock is
  \<open>2^32\<close> jiffies further at every read.
\<close>

definition leaping_platform :: "64 platform" where
  "leaping_platform =
     \<lparr>HZ = 1000,
      spi_sync_rx = (\<lambda>k. Some [0, 0, 0, 0]),
      jiffies_at = (\<lambda>k. of_nat k * 4294967296),
      data_available_at = (\<lambda>k. False)\<rparr>"



section \<open>Properties\<close>

subsection \<open>Slots and records\<close>

lemma spi_transfer16_slot:
  "pisnd_spi_device s \<Longrightarrow>
   spi_transfer16 p val s =
     (rx_slot p (length (spi_log s)),
      s\<lparr>spi_log := spi_log s @ [[ucast (drop_bit 8 val), ucast (val AND 0xff)]]\<rparr>)"
  by (simp add: spi_transfer16_def spi_transfer_def rx_slot_def Let_def
      split: option.split)

lemma u8_succ: "i < sz \<Longrightarrow> unat ((i :: u8) + 1) = unat i + 1"
proof -
  assume "i < sz"
  then have "unat i < unat sz" by (simp add: word_less_nat_alt)
  moreover have "unat sz < 256" using unsigned_less [of sz, where ?'a = nat] by simp
  ultimately show ?thesis by (simp add: unat_word_ariths)
qed

lemma read_payload_ret:
  "pisnd_spi_device s \<Longrightarrow> unat sz - unat i = d \<Longrightarrow>
   fst (read_payload p sz i dst s) =
     (if \<exists>j<d. \<not> slot_valid (rx_slot p (length (spi_log s) + j)) then - EINVAL else 0)"
proof (induction d arbitrary: i dst s)
  case 0
  then have "\<not> i < sz" by (simp add: word_less_nat_alt)
  then show ?case by (simp add: read_payload.simps [of p sz i])
next
  case (Suc d)
  then have lt: "i < sz" by (simp add: word_less_nat_alt)
  have d: "unat sz - unat (i + 1) = d"
    using Suc.prems u8_succ [OF lt] by simp
  let ?s' = "s\<lparr>spi_log := spi_log s @ [[0, 0]]\<rparr>"
  have dev: "pisnd_spi_device ?s'" using Suc.prems by simp
  show ?case
  proof (cases "slot_valid (rx_slot p (length (spi_log s)))")
    case False
    then have "\<exists>j<Suc d. \<not> slot_valid (rx_slot p (length (spi_log s) + j))"
      by (intro exI [of _ 0]) simp
    with False show ?thesis
      using lt Suc.prems(1)
      by (simp add: read_payload.simps [of p sz i] spi_transfer16_slot slot_valid_def)
  next
    case True
    have ex: "(\<exists>j<Suc d. \<not> slot_valid (rx_slot p (length (spi_log s) + j))) \<longleftrightarrow>
      (\<exists>j<d. \<not> slot_valid (rx_slot p (length (spi_log ?s') + j)))"
      using True by (auto simp: less_Suc_eq_0_disj)
    have step: "read_payload p sz i dst s =
      read_payload p sz (i + 1) (dst[unat i := slot_payload (rx_slot p (length (spi_log s)))]) ?s'"
      using True lt Suc.prems(1)
      by (simp add: read_payload.simps [of p sz i] spi_transfer16_slot slot_valid_def
          slot_payload_def)
    show ?thesis
      unfolding step ex by (rule Suc.IH [OF dev d])
  qed
qed

lemma read_payload_ok:
  "pisnd_spi_device s \<Longrightarrow> unat sz - unat i = d \<Longrightarrow> i \<le> sz \<Longrightarrow> unat sz \<le> length dst \<Longrightarrow>
   \<forall>j<d. slot_valid (rx_slot p (length (spi_log s) + j)) \<Longrightarrow>
   read_payload p sz i dst s =
     (0, sz,
      take (unat i) dst @
        map (\<lambda>j. slot_payload (rx_slot p (length (spi_log s) + j))) [0..<d] @
        drop (unat sz) dst,
      s\<lparr>spi_log := spi_log s @ replicate d [0, 0]\<rparr>)"
proof (induction d arbitrary: i dst s)
  case 0
  then have "unat i = unat sz" by (simp add: word_le_nat_alt)
  then have "i = sz" using word_unat_eq_iff by blast
  then show ?case by (simp add: read_payload.simps [of p sz sz])
next
  case (Suc d)
  then have lt: "i < sz" by (simp add: word_less_nat_alt)
  have i1: "unat (i + 1) = unat i + 1" by (rule u8_succ [OF lt])
  have d: "unat sz - unat (i + 1) = d"
    using Suc.prems i1 by simp
  have le: "i + 1 \<le> sz" using lt i1 by (simp add: word_le_nat_alt word_less_nat_alt)
  let ?s' = "s\<lparr>spi_log := spi_log s @ [[0, 0]]\<rparr>"
  let ?b = "slot_payload (rx_slot p (length (spi_log s)))"
  have dev: "pisnd_spi_device ?s'" using Suc.prems by simp
  have v0: "slot_valid (rx_slot p (length (spi_log s)))" using Suc.prems(5) by force
  have vs: "\<forall>j<d. slot_valid (rx_slot p (length (spi_log ?s') + j))"
    using Suc.prems(5) by auto
  have len: "unat sz \<le> length (dst[unat i := ?b])" using Suc.prems by simp
  have ilt: "unat i < length dst" using lt Suc.prems(4) by (simp add: word_less_nat_alt)
  have step: "read_payload p sz i dst s = read_payload p sz (i + 1) (dst[unat i := ?b]) ?s'"
    using v0 lt Suc.prems(1)
    by (simp add: read_payload.simps [of p sz i] spi_transfer16_slot slot_valid_def slot_payload_def)
  have lst: "take (unat i + 1) (dst[unat i := ?b]) = take (unat i) dst @ [?b]"
    using ilt by (simp add: take_Suc_conv_app_nth)
  have mp: "map (\<lambda>j. slot_payload (rx_slot p (length (spi_log s) + j))) [0..<Suc d] =
    ?b # map (\<lambda>j. slot_payload (rx_slot p (length (spi_log ?s') + j))) [0..<d]"
    by (simp add: upt_conv_Cons map_Suc_upt [symmetric] del: upt_Suc)
  have dr: "drop (unat sz) (dst[unat i := ?b]) = drop (unat sz) dst"
    using lt by (simp add: word_less_nat_alt)
  show ?case
    unfolding step Suc.IH [OF dev d le len vs] i1 lst mp dr
    by (simp add: replicate_app_Cons_same)
qed

lemma spi_read_bytes_unfold:
  assumes dev: "pisnd_spi_device s"
  shows "spi_read_bytes p len s =
     (if \<not> slot_valid (rx_slot p (length (spi_log s)))
      then (- EINVAL, replicate len 0, 0, s\<lparr>spi_log := spi_log s @ [[0, 0]]\<rparr>)
      else if len < unat (slot_payload (rx_slot p (length (spi_log s))))
      then (- EINVAL, replicate len 0, 0, s\<lparr>spi_log := spi_log s @ [[0, 0]]\<rparr>)
      else
        (case read_payload p (slot_payload (rx_slot p (length (spi_log s)))) 0 (replicate len 0)
                (s\<lparr>spi_log := spi_log s @ [[0, 0]]\<rparr>) of
           (ret, i, dst', s2) \<Rightarrow> if ret \<noteq> 0 then (ret, dst', 0, s2) else (0, dst', i, s2)))"
  by (simp add: spi_read_bytes_def spi_transfer16_slot [OF dev] slot_valid_def
      slot_payload_def Let_def)

lemma spi_read_bytes_ret:
  assumes dev: "pisnd_spi_device s"
  shows "fst (spi_read_bytes p len s) =
     (if \<not> slot_valid (rx_slot p (length (spi_log s))) \<or>
         len < unat (slot_payload (rx_slot p (length (spi_log s)))) \<or>
         (\<exists>j<unat (slot_payload (rx_slot p (length (spi_log s)))).
            \<not> slot_valid (rx_slot p (length (spi_log s) + 1 + j)))
      then - EINVAL else 0)"
proof -
  let ?s1 = "s\<lparr>spi_log := spi_log s @ [[0, 0]]\<rparr>"
  let ?sz = "slot_payload (rx_slot p (length (spi_log s)))"
  have dev1: "pisnd_spi_device ?s1" using dev by simp
  have r: "fst (read_payload p ?sz 0 (replicate len 0) ?s1) =
     (if \<exists>j<unat ?sz. \<not> slot_valid (rx_slot p (length (spi_log s) + 1 + j))
      then - EINVAL else 0)"
    using read_payload_ret [OF dev1, of ?sz 0 "unat ?sz" p "replicate len 0"] by simp
  have f: "fst (case x of (ret, i, dst', s2) \<Rightarrow>
             if ret \<noteq> 0 then (ret, dst', 0 :: u8, s2) else (0 :: int, dst', i, s2)) = fst x"
    for x :: "int \<times> u8 \<times> u8 list \<times> driver"
    by (cases x) simp
  show ?thesis
    unfolding spi_read_bytes_unfold [OF dev] using r by (auto simp: f)
qed

lemma spi_read_bytes_ok:
  assumes dev: "pisnd_spi_device s"
    and v: "slot_valid (rx_slot p (length (spi_log s)))"
    and n: "unat (slot_payload (rx_slot p (length (spi_log s)))) = n"
    and le: "n \<le> len"
    and vs: "\<forall>j<n. slot_valid (rx_slot p (length (spi_log s) + 1 + j))"
  shows "spi_read_bytes p len s =
     (0, map (\<lambda>j. slot_payload (rx_slot p (length (spi_log s) + 1 + j))) [0..<n] @
           replicate (len - n) 0,
      slot_payload (rx_slot p (length (spi_log s))),
      s\<lparr>spi_log := spi_log s @ replicate (Suc n) [0, 0]\<rparr>)"
proof -
  let ?s1 = "s\<lparr>spi_log := spi_log s @ [[0, 0]]\<rparr>"
  let ?sz = "slot_payload (rx_slot p (length (spi_log s)))"
  have dev1: "pisnd_spi_device ?s1" using dev by simp
  have r: "read_payload p ?sz 0 (replicate len 0) ?s1 =
     (0, ?sz,
      take (unat (0 :: u8)) (replicate len 0) @
        map (\<lambda>j. slot_payload (rx_slot p (length (spi_log ?s1) + j))) [0..<n] @
        drop (unat ?sz) (replicate len 0),
      ?s1\<lparr>spi_log := spi_log ?s1 @ replicate n [0, 0]\<rparr>)"
    using vs le n by (intro read_payload_ok [OF dev1]) simp_all
  show ?thesis
    unfolding spi_read_bytes_unfold [OF dev] r using v le n
    by (simp add: replicate_app_Cons_same)
qed

subsection \<open>Failure conditions of a record read\<close>

lemmas hs_defs = rx_slot_def handshake_platform_def handshake_bytes_def str_bytes_def
  slot_valid_def slot_payload_def

text \<open>
  C2. With the device present, \<open>spi_read_bytes\<close> returns \<open>-EINVAL\<close> exactly when the
  first slot exchanged is not valid, or the length it reports (its low byte) exceeds
  the length of the destination, or one of the following slots, as many as the
  reported length, is not valid. Otherwise it returns 0, the destination holds the
  reported number of payload bytes (followed by the zeroes of the \<open>memset\<close>) and
  \<open>*bytesRead\<close> is that number.
\<close>

theorem spi_read_bytes_fails_iff:
  assumes dev: "pisnd_spi_device s"
    and res: "spi_read_bytes p len s = (ret, dst, bytesRead, s')"
    and k: "k = length (spi_log s)"
    and n: "n = unat (slot_payload (rx_slot p k))"
  shows "(ret = - EINVAL \<longleftrightarrow>
           \<not> slot_valid (rx_slot p k) \<or> len < n \<or>
           (\<exists>j<n. \<not> slot_valid (rx_slot p (k + 1 + j)))) \<and>
         (ret \<noteq> - EINVAL \<longrightarrow>
           ret = 0 \<and>
           dst = map (\<lambda>j. slot_payload (rx_slot p (k + 1 + j))) [0..<n] @ replicate (len - n) 0 \<and>
           unat bytesRead = n)"
proof (cases "\<not> slot_valid (rx_slot p k) \<or> len < n \<or>
    (\<exists>j<n. \<not> slot_valid (rx_slot p (k + 1 + j)))")
  case True
  then have "fst (spi_read_bytes p len s) = - EINVAL"
    unfolding spi_read_bytes_ret [OF dev] k n by simp
  with True res show ?thesis by simp
next
  case False
  then have "spi_read_bytes p len s =
     (0, map (\<lambda>j. slot_payload (rx_slot p (k + 1 + j))) [0..<n] @ replicate (len - n) 0,
      slot_payload (rx_slot p k), s\<lparr>spi_log := spi_log s @ replicate (Suc n) [0, 0]\<rparr>)"
    unfolding k n by (intro spi_read_bytes_ok [OF dev]) auto
  with res have "ret = 0" and "bytesRead = slot_payload (rx_slot p k)"
    and "dst = map (\<lambda>j. slot_payload (rx_slot p (k + 1 + j))) [0..<n] @ replicate (len - n) 0"
    by simp_all
  with False n show ?thesis by (simp add: EINVAL_def)
qed

theorem spi_read_bytes_fails_iff_witness:
  "pisnd_spi_device (fresh_driver\<lparr>spi_log := [[0, 0]]\<rparr>) \<and>
   (\<exists>s'. spi_read_bytes handshake_platform 256 (fresh_driver\<lparr>spi_log := [[0, 0]]\<rparr>) =
      (0, [0x01, 0x02] @ replicate 254 0, 2, s'))"
proof -
  let ?s = "fresh_driver\<lparr>spi_log := [[0, 0]]\<rparr>"
  obtain ret dst bytesRead s' where
    res: "spi_read_bytes handshake_platform 256 ?s = (ret, dst, bytesRead, s')"
    by (metis prod_cases4)
  have dev: "pisnd_spi_device ?s" by (simp add: fresh_driver_def)
  have k: "1 = length (spi_log ?s)" by simp
  have n: "2 = unat (slot_payload (rx_slot handshake_platform 1))"
    by (simp add: hs_defs)
  have v: "slot_valid (rx_slot handshake_platform 1)"
    by (simp add: hs_defs)
  have vs: "slot_valid (rx_slot handshake_platform (1 + 1 + j))" if "j < 2" for j
  proof -
    from that have "j = 0 \<or> j = 1" by auto
    then show ?thesis by (auto simp: hs_defs)
  qed
  have p: "map (\<lambda>j. slot_payload (rx_slot handshake_platform (1 + 1 + j))) [0..<2] = [1, 2]"
    by (simp add: upt_conv_Cons hs_defs)
  note T = spi_read_bytes_fails_iff [OF dev res k n]
  from T v vs have "ret \<noteq> - EINVAL" by auto
  with T have "ret = 0 \<and> dst = [0x01, 0x02] @ replicate 254 0 \<and> unat bytesRead = 2"
    unfolding p by simp
  then have "ret = 0 \<and> dst = [0x01, 0x02] @ replicate 254 0 \<and> bytesRead = 2"
    by (simp add: word_unat_eq_iff)
  with res dev show ?thesis by simp
qed

subsection \<open>The handshake round trip\<close>

lemma slot_hi: "drop_bit 8 (push_bit 8 (ucast h) OR ucast l :: u16) = ucast h" for h l :: u8
  by (rule bit_word_eqI) (auto simp: bit_simps dest: bit_imp_le_length)

lemma slot_lo: "ucast ((push_bit 8 (ucast h) OR ucast l :: u16) AND 0xff) = l" for h l :: u8
proof -
  have m: "(0xff :: u16) = mask 8" by (simp add: mask_eq_exp_minus_1)
  show ?thesis unfolding m
    by (rule bit_word_eqI) (auto simp: bit_simps dest: bit_imp_le_length)
qed

lemma ucast_u8_u16_eq_0: "(ucast h :: u16) = 0 \<longleftrightarrow> h = 0" for h :: u8
proof
  assume "(ucast h :: u16) = 0"
  then have "unat (ucast h :: u16) = 0" by simp
  moreover have "unat h < 2 ^ 16"
    using unsigned_less [of h, where ?'a = nat] by simp
  ultimately have "unat h = 0"
    by (simp add: unsigned_ucast_eq take_bit_nat_eq_self)
  then show "h = 0" by (simp add: unsigned_eq_0_iff)
qed simp

lemma rx_slot_Some2:
  assumes "spi_sync_rx p k = Some [h, l]"
  shows "slot_valid (rx_slot p k) = (h \<noteq> 0) \<and> slot_payload (rx_slot p k) = l"
proof -
  have r: "rx_slot p k = push_bit 8 (ucast h) OR ucast l"
    using assms by (simp add: rx_slot_def)
  show ?thesis
    unfolding r slot_valid_def slot_payload_def slot_hi slot_lo
    by (simp add: ucast_u8_u16_eq_0)
qed

lemma handshake_platform_slots:
  "\<forall>j<21. slot_valid (rx_slot handshake_platform (length (spi_log fresh_driver) + j)) \<and>
      slot_payload (rx_slot handshake_platform (length (spi_log fresh_driver) + j)) =
      handshake_bytes ! j"
proof (intro allI impI)
  fix j :: nat assume "j < 21"
  then have "spi_sync_rx handshake_platform j = Some [1, handshake_bytes ! j]"
    by (simp add: handshake_platform_def handshake_bytes_def str_bytes_def)
  from rx_slot_Some2 [OF this]
  show "slot_valid (rx_slot handshake_platform (length (spi_log fresh_driver) + j)) \<and>
      slot_payload (rx_slot handshake_platform (length (spi_log fresh_driver) + j)) =
      handshake_bytes ! j"
    by (simp add: fresh_driver_def)
qed

lemma handshake_record:
  assumes dev: "pisnd_spi_device s"
    and L: "spi_log s = L @ replicate K [0, 0]"
    and slots: "\<forall>j<21. slot_valid (rx_slot p (length L + j)) \<and>
      slot_payload (rx_slot p (length L + j)) = handshake_bytes ! j"
    and K: "K + n + 1 \<le> 21" and n: "unat (handshake_bytes ! K) = n"
  shows "spi_read_bytes p 256 s =
     (0, take n (drop (K + 1) handshake_bytes) @ replicate (256 - n) 0, handshake_bytes ! K,
      s\<lparr>spi_log := L @ replicate (K + n + 1) [0, 0]\<rparr>)"
proof -
  have len: "length (spi_log s) = length L + K" using L by simp
  have pl: "slot_payload (rx_slot p (length (spi_log s))) = handshake_bytes ! K"
    using slots K unfolding len by simp
  have v: "slot_valid (rx_slot p (length (spi_log s)))"
    using slots K unfolding len by simp
  have vs: "\<forall>j<n. slot_valid (rx_slot p (length (spi_log s) + 1 + j))"
  proof (intro allI impI)
    fix j assume "j < n"
    then have "K + 1 + j < 21" using K by simp
    with slots have "slot_valid (rx_slot p (length L + (K + 1 + j)))" by blast
    then show "slot_valid (rx_slot p (length (spi_log s) + 1 + j))"
      unfolding len by (simp add: add.assoc)
  qed
  have hl: "length handshake_bytes = 21" by (simp add: handshake_bytes_def str_bytes_def)
  have mp: "map (\<lambda>j. slot_payload (rx_slot p (length (spi_log s) + 1 + j))) [0..<n] =
    take n (drop (K + 1) handshake_bytes)"
  proof (rule nth_equalityI)
    show "length (map (\<lambda>j. slot_payload (rx_slot p (length (spi_log s) + 1 + j))) [0..<n]) =
      length (take n (drop (K + 1) handshake_bytes))"
      using K hl by simp
  next
    fix i assume "i < length (map (\<lambda>j. slot_payload (rx_slot p (length (spi_log s) + 1 + j))) [0..<n])"
    then have i: "i < n" by simp
    then have "K + 1 + i < 21" using K by simp
    with slots have "slot_payload (rx_slot p (length L + (K + 1 + i))) = handshake_bytes ! (K + 1 + i)"
      by blast
    then show "map (\<lambda>j. slot_payload (rx_slot p (length (spi_log s) + 1 + j))) [0..<n] ! i =
      take n (drop (K + 1) handshake_bytes) ! i"
      using i K hl unfolding len by (simp add: add.assoc)
  qed
  have n256: "n \<le> 256" using K by simp
  have R: "spi_read_bytes p 256 s =
     (0, map (\<lambda>j. slot_payload (rx_slot p (length (spi_log s) + 1 + j))) [0..<n] @
           replicate (256 - n) 0,
      slot_payload (rx_slot p (length (spi_log s))),
      s\<lparr>spi_log := spi_log s @ replicate (Suc n) [0, 0]\<rparr>)"
    by (rule spi_read_bytes_ok [OF dev v _ n256 vs]) (simp add: pl n)
  have lg: "spi_log s @ replicate (Suc n) [0, 0] = L @ replicate (K + n + 1) [0, 0]"
    unfolding L by (simp add: replicate_add replicate_append_same)
  show ?thesis unfolding R mp pl lg ..
qed


lemma handshake_record':
  assumes "pisnd_spi_device s" and "spi_log s = L @ replicate K [0, 0]"
    and "\<forall>j<21. slot_valid (rx_slot p (length L + j)) \<and>
      slot_payload (rx_slot p (length L + j)) = handshake_bytes ! j"
    and "K + n + 1 \<le> 21" and "b = handshake_bytes ! K" and "unat b = n"
    and "bs = take n (drop (K + 1) handshake_bytes)" and "K' = K + n + 1" and "m = 256 - n"
  shows "spi_read_bytes p 256 s = (0, bs @ replicate m 0, b, s\<lparr>spi_log := L @ replicate K' [0, 0]\<rparr>)"
  unfolding assms(5,7,8,9)
  by (rule handshake_record [OF assms(1-4)]) (use assms(5,6) in simp)

lemma of_char_u8: "unat (of_nat (of_char c) :: u8) = of_char c"
proof -
  have "(of_char c :: nat) < 256"
    by (rule nat_of_char_less_256) 
  then show ?thesis by (simp add: unat_of_nat)
qed

lemma nul: "char_of (0 :: nat) = CHR 0x00"
  by (simp add: char_of_def)

lemma c_string_str_bytes:
  assumes "CHR 0x00 \<notin> set cs"
  shows "c_string (str_bytes cs @ 0 # rest) = cs"
proof -
  have nz: "(of_nat (of_char c) :: u8) \<noteq> 0" if "c \<in> set cs" for c
  proof
    assume "(of_nat (of_char c) :: u8) = 0"
    then have "unat (of_nat (of_char c) :: u8) = 0" by simp
    then have "(of_char c :: nat) = 0" by (simp only: of_char_u8)
    then have "char_of (of_char c :: nat) = char_of (0 :: nat)" by simp
    then have "c = CHR 0x00" by (simp add: nul)
    with that assms show False by simp
  qed
  have "takeWhile (\<lambda>b. b \<noteq> 0) (str_bytes cs @ 0 # rest) = str_bytes cs"
  proof -
    have "\<forall>b\<in>set (str_bytes cs). b \<noteq> 0"
      using nz by (auto simp: str_bytes_def)
    then show ?thesis by (simp add: takeWhile_append2)
  qed
  moreover have "map (\<lambda>b. char_of (unat b)) (str_bytes cs) = cs"
    by (simp add: str_bytes_def of_char_u8 comp_def)
  ultimately show ?thesis by (simp add: c_string_def)
qed
lemma length_str_bytes: "length (str_bytes cs) = length cs"
  by (simp add: str_bytes_def)

lemma fmt_values:
  "fmt_x 1 = ''1''" "fmt_x (Suc 0) = ''1''" "fmt_x 0 = ''0''" "fmt_02x 2 = ''02''"
  "fmt_02x 0xDE = ''de''" "fmt_02x 0xAD = ''ad''"
  by (simp_all add: fmt_x.simps fmt_02x_def hex_digit_def)

text \<open>
  C1. If the device is present and the next 21 slots are valid and carry, in their low
  bytes, the count 4 and the four length-prefixed records (firmware 01 02, serial
  ABC1234567, id DE AD, hardware 01 00), whatever their non-zero validity bytes are,
  then \<open>spi_read_info\<close> returns 0 and the accessors give the strings 1.02,
  ABC1234567, dead and 1.0.
\<close>

theorem handshake_round_trip:
  assumes dev: "pisnd_spi_device s"
    and slots: "\<forall>j<21. slot_valid (rx_slot p (length (spi_log s) + j)) \<and>
      slot_payload (rx_slot p (length (spi_log s) + j)) = handshake_bytes ! j"
  shows "fst (spi_read_info p s) = 0 \<and>
    c_string (pisnd_spi_get_fw_version (snd (spi_read_info p s))) = ''1.02'' \<and>
    c_string (pisnd_spi_get_serial (snd (spi_read_info p s))) = ''ABC1234567'' \<and>
    c_string (pisnd_spi_get_id (snd (spi_read_info p s))) = ''dead'' \<and>
    c_string (pisnd_spi_get_hw_version (snd (spi_read_info p s))) = ''1.0''"
proof -
  define L where "L = spi_log s"
  define s0 where "s0 = s\<lparr>g_serial_num := replicate 11 0,
    g_fw_version := replicate MAX_VERSION_STR_LEN 0,
    g_hw_version := store_str (g_hw_version s) ''1.0'',
    g_id := replicate 25 0\<rparr>"
  have sl: "\<forall>j<21. slot_valid (rx_slot p (length L + j)) \<and>
      slot_payload (rx_slot p (length L + j)) = handshake_bytes ! j"
    using slots unfolding L_def .
  have sl0: "slot_valid (rx_slot p (length L))" "slot_payload (rx_slot p (length L)) = 4"
    using sl [rule_format, of 0] by (simp_all add: handshake_bytes_def)
  define s1 where "s1 = s0\<lparr>spi_log := L @ replicate 1 [0, 0]\<rparr>"
  have dev0: "pisnd_spi_device s0" and log0: "spi_log s0 = L"
    using dev by (simp_all add: s0_def L_def)
  have start: "spi_read_info p s = read_info_loop p 4 0 s1"
    using sl0
    by (simp add: spi_read_info_def s0_def [symmetric] spi_transfer16_slot [OF dev0] log0
        slot_valid_def slot_payload_def s1_def)
  \<comment> \<open>record 0: the firmware version\<close>
  have dev1: "pisnd_spi_device s1" and log1: "spi_log s1 = L @ replicate 1 [0, 0]"
    using dev0 by (simp_all add: s1_def)
  have r0: "spi_read_bytes p 256 s1 =
    (0, [0x01, 0x02] @ replicate 254 0, 2, s1\<lparr>spi_log := L @ replicate 4 [0, 0]\<rparr>)"
    by (rule handshake_record' [OF dev1 log1 sl, where n = 2]) (simp_all add: handshake_bytes_def)
  define s2 where "s2 = s1\<lparr>spi_log := L @ replicate 4 [0, 0],
    g_fw_version := str_bytes ''1.02'' @ [0, 0]\<rparr>"
  have sw0: "spi_read_info_switch 0 (([0x01, 0x02] @ replicate 254 0) @ [0]) 2
      (s1\<lparr>spi_log := L @ replicate 4 [0, 0]\<rparr>) = (0, s2)"
    by (simp add: spi_read_info_switch_def s2_def s1_def s0_def fmt_values snprintf_def
        store_str_def MAX_VERSION_STR_LEN_def str_bytes_def)
  have it0: "read_info_loop p 4 0 s1 = read_info_loop p 4 1 s2"
    by (subst read_info_loop.simps) (simp add: r0 sw0 [simplified])
  \<comment> \<open>record 1: the serial number\<close>
  have dev2: "pisnd_spi_device s2" and log2: "spi_log s2 = L @ replicate 4 [0, 0]"
    using dev1 by (simp_all add: s2_def)
  have r1: "spi_read_bytes p 256 s2 =
    (0, str_bytes ''ABC1234567'' @ replicate 246 0, 10, s2\<lparr>spi_log := L @ replicate 15 [0, 0]\<rparr>)"
    by (rule handshake_record' [OF dev2 log2 sl, where n = 10]) (simp_all add: handshake_bytes_def str_bytes_def)
  define s3 where "s3 = s2\<lparr>spi_log := L @ replicate 15 [0, 0],
    g_serial_num := str_bytes ''ABC1234567'' @ [0]\<rparr>"
  have sw1: "spi_read_info_switch 1 ((str_bytes ''ABC1234567'' @ replicate 246 0) @ [0]) 10
      (s2\<lparr>spi_log := L @ replicate 15 [0, 0]\<rparr>) = (0, s3)"
    by (simp add: spi_read_info_switch_def s3_def str_bytes_def)
  have it1: "read_info_loop p 4 1 s2 = read_info_loop p 4 2 s3"
    by (subst read_info_loop.simps) (simp add: r1 sw1 [simplified])
  \<comment> \<open>record 2: the id\<close>
  have dev3: "pisnd_spi_device s3" and log3: "spi_log s3 = L @ replicate 15 [0, 0]"
    using dev2 by (simp_all add: s3_def)
  have r2: "spi_read_bytes p 256 s3 =
    (0, [0xDE, 0xAD] @ replicate 254 0, 2, s3\<lparr>spi_log := L @ replicate 18 [0, 0]\<rparr>)"
    by (rule handshake_record' [OF dev3 log3 sl, where n = 2]) (simp_all add: handshake_bytes_def str_bytes_def)
  define s4 where "s4 = s3\<lparr>spi_log := L @ replicate 18 [0, 0],
    g_id := str_bytes ''dead'' @ [0] @ replicate 20 0\<rparr>"
  have sw2: "spi_read_info_switch 2 (([0xDE, 0xAD] @ replicate 254 0) @ [0]) 2
      (s3\<lparr>spi_log := L @ replicate 18 [0, 0]\<rparr>) = (0, s4)"
    by (simp add: spi_read_info_switch_def s4_def s3_def s2_def s1_def s0_def fmt_values
        store_str_def str_bytes_def)
  have it2: "read_info_loop p 4 2 s3 = read_info_loop p 4 3 s4"
    by (subst read_info_loop.simps) (simp add: r2 sw2 [simplified])
  \<comment> \<open>record 3: the hardware version\<close>
  have dev4: "pisnd_spi_device s4" and log4: "spi_log s4 = L @ replicate 18 [0, 0]"
    using dev3 by (simp_all add: s4_def)
  have r3: "spi_read_bytes p 256 s4 =
    (0, [0x01, 0x00] @ replicate 254 0, 2, s4\<lparr>spi_log := L @ replicate 21 [0, 0]\<rparr>)"
    by (rule handshake_record' [OF dev4 log4 sl, where n = 2]) (simp_all add: handshake_bytes_def str_bytes_def)
  define s5 where "s5 = s4\<lparr>spi_log := L @ replicate 21 [0, 0],
    g_hw_version := (snprintf (store_str (g_hw_version s) ''1.0'') 6 ''1.0'')[5 := 0]\<rparr>"
  have sw3: "spi_read_info_switch 3 (([0x01, 0x00] @ replicate 254 0) @ [0]) 2
      (s4\<lparr>spi_log := L @ replicate 21 [0, 0]\<rparr>) = (0, s5)"
    by (simp add: spi_read_info_switch_def s5_def s4_def s3_def s2_def s1_def s0_def fmt_values snprintf_def
        store_str_def MAX_VERSION_STR_LEN_def str_bytes_def)
  have it3: "read_info_loop p 4 3 s4 = read_info_loop p 4 4 s5"
    by (subst read_info_loop.simps) (simp add: r3 sw3 [simplified])
  have fin: "read_info_loop p 4 4 s5 = (0, s5)"
    by (subst read_info_loop.simps) simp
  have res: "spi_read_info p s = (0, s5)"
    unfolding start it0 it1 it2 it3 fin ..
  have hw: "g_hw_version s5 = str_bytes ''1.0'' @ 0 # (drop 4 (store_str (g_hw_version s) ''1.0''))[1 := 0]"
    by (simp add: s5_def snprintf_def store_str_def [of _ "''1.0''"] list_update_append
        length_str_bytes)
  have "c_string (g_fw_version s5) = ''1.02''" "c_string (g_serial_num s5) = ''ABC1234567''"
    "c_string (g_id s5) = ''dead''" "c_string (g_hw_version s5) = ''1.0''"
    unfolding hw by (simp_all add: s5_def s4_def s3_def s2_def c_string_str_bytes)
  then show ?thesis
    unfolding res
    by (simp add: pisnd_spi_get_fw_version_def pisnd_spi_get_serial_def pisnd_spi_get_id_def
        pisnd_spi_get_hw_version_def)
qed

theorem handshake_round_trip_witness:
  "pisnd_spi_device fresh_driver \<and>
   fst (spi_read_info handshake_platform fresh_driver) = 0 \<and>
   c_string (pisnd_spi_get_fw_version (snd (spi_read_info handshake_platform fresh_driver))) =
     ''1.02'' \<and>
   c_string (pisnd_spi_get_serial (snd (spi_read_info handshake_platform fresh_driver))) =
     ''ABC1234567'' \<and>
   c_string (pisnd_spi_get_id (snd (spi_read_info handshake_platform fresh_driver))) =
     ''dead'' \<and>
   c_string (pisnd_spi_get_hw_version (snd (spi_read_info handshake_platform fresh_driver))) =
     ''1.0''"
proof -
  have dev: "pisnd_spi_device fresh_driver"
    by (simp add: fresh_driver_def)
  show ?thesis
    using dev handshake_round_trip [OF dev handshake_platform_slots] by simp
qed

subsection \<open>A record longer than its destination\<close>









section \<open>The work handler\<close>

subsection \<open>The receive callback and the receive loop\<close>

lemma pisnd_midi_recv_callback_eq:
  "pisnd_midi_recv_callback s =
     s\<lparr>spi_fifo_in := [], midi_received := midi_received s @ spi_fifo_in s\<rparr>"
proof (induction s rule: pisnd_midi_recv_callback.induct)
  case (1 s)
  show ?case
  proof (cases "spi_fifo_in s = []")
    case True
    then show ?thesis
      by (subst pisnd_midi_recv_callback.simps) (simp add: pisnd_spi_recv_def kfifo_out_def)
  next
    case False
    let ?s' = "s\<lparr>spi_fifo_in := drop 128 (spi_fifo_in s)\<rparr>"
    let ?b = "take 128 (spi_fifo_in s)"
    have r: "pisnd_spi_recv 128 s = (?b, ?s')"
      by (simp add: pisnd_spi_recv_def kfifo_out_def)
    have n: "length ?b \<noteq> 0" using False by simp
    have "pisnd_midi_recv_callback s =
      pisnd_midi_recv_callback (?s'\<lparr>midi_received := midi_received ?s' @ ?b\<rparr>)"
      using n by (subst pisnd_midi_recv_callback.simps) (simp add: r)
    also have "\<dots> = s\<lparr>spi_fifo_in := [], midi_received := midi_received s @ spi_fifo_in s\<rparr>"
      using "1.IH" [OF r [symmetric] n] by simp
    finally show ?thesis .
  qed
qed

lemma rx_slot_in_frame: "tx_view (fst (rx_slot_in rxbuf (s, h) i)) = tx_view s"
  by (simp add: rx_slot_in_def Let_def pisnd_midi_recv_callback_eq tx_view_def)

lemma rx_slot_in_had_data:
  "snd (rx_slot_in rxbuf (s, h) i) = (h \<or> rxbuf ! i \<noteq> 0)"
  by (simp add: rx_slot_in_def Let_def)

lemma rx_loop_frame: "tx_view (fst (foldl (rx_slot_in rxbuf) (s, False) [0, 2])) = tx_view s"
proof -
  obtain s1 h1 where 1: "rx_slot_in rxbuf (s, False) 0 = (s1, h1)"
    by (cases "rx_slot_in rxbuf (s, False) 0")
  have "tx_view s1 = tx_view s" using rx_slot_in_frame [of rxbuf s False 0] 1 by simp
  moreover have "tx_view (fst (rx_slot_in rxbuf (s1, h1) 2)) = tx_view s1"
    by (rule rx_slot_in_frame)
  ultimately show ?thesis using 1 by simp
qed

lemma rx_loop_had_data:
  "snd (foldl (rx_slot_in rxbuf) (s, False) [0, 2]) = (rxbuf ! 0 \<noteq> 0 \<or> rxbuf ! 2 \<noteq> 0)"
proof -
  obtain s1 h1 where 1: "rx_slot_in rxbuf (s, False) 0 = (s1, h1)" by (cases "rx_slot_in rxbuf (s, False) 0")
  then have "h1 = (rxbuf ! 0 \<noteq> 0)" using rx_slot_in_had_data [of rxbuf s False 0] by simp
  then show ?thesis using 1 rx_slot_in_had_data [of rxbuf s1 h1 2] by simp
qed

subsection \<open>The transmit block\<close>

lemma build_txbuf_unroll:
  "build_txbuf 0 st =
     (if tx_guard 0 st then
        (if tx_guard 2 (tx_slot 0 st) then tx_slot 2 (tx_slot 0 st) else tx_slot 0 st)
      else st)"
proof -
  have g: "\<not> tx_guard (2 + 2) st'" for st'
    by (simp add: tx_guard_def TRANSFER_SIZE_def split: prod.split)
  have 4: "build_txbuf (2 + 2) st' = st'" for st'
    by (subst build_txbuf.simps) (simp only: g if_False)
  have 2: "build_txbuf (0 + 2) st' = (if tx_guard 2 st' then tx_slot 2 st' else st')" for st'
    by (subst build_txbuf.simps) (simp only: add_0 4)
  show ?thesis
    by (subst build_txbuf.simps) (simp only: 2)
qed


lemma zeros4: "replicate TRANSFER_SIZE (0 :: u8) = [0, 0, 0, 0]" "replicate 4 (0 :: u8) = [0, 0, 0, 0]"
  by (simp_all add: TRANSFER_SIZE_def numeral_eq_Suc)

lemma build_txbuf_led:
  assumes "g_ledFlashDurationChanged s"
  shows "build_txbuf 0 (replicate TRANSFER_SIZE 0, s, out) =
     (if sint (out + 1000) < PISOUND_OUTPUT_BUFFER_SIZE_MILLIBYTES \<and> spi_fifo_out s \<noteq> []
      then ([0xf0, g_ledFlashDuration s, 0x0f, hd (spi_fifo_out s)],
            s\<lparr>g_ledFlashDuration := 0, g_ledFlashDurationChanged := False,
              spi_fifo_out := tl (spi_fifo_out s)\<rparr>,
            out + 1000)
      else ([0xf0, g_ledFlashDuration s, 0, 0],
            s\<lparr>g_ledFlashDuration := 0, g_ledFlashDurationChanged := False\<rparr>,
            out))"
  using assms
  by (cases "spi_fifo_out s")
    (simp_all add: build_txbuf_unroll zeros4 tx_guard_def tx_slot_def kfifo_get_def
      TRANSFER_SIZE_def)

lemma build_txbuf_no_led:
  assumes "\<not> g_ledFlashDurationChanged s"
  shows "build_txbuf 0 (replicate TRANSFER_SIZE 0, s, out) =
     (if \<not> sint (out + 1000) < PISOUND_OUTPUT_BUFFER_SIZE_MILLIBYTES then ([0, 0, 0, 0], s, out)
      else
        (case spi_fifo_out s of
           [] \<Rightarrow> ([0, 0, 0, 0], s, out)
         | v # q \<Rightarrow>
             if sint (out + 1000 + 1000) < PISOUND_OUTPUT_BUFFER_SIZE_MILLIBYTES \<and> q \<noteq> []
             then ([0x0f, v, 0x0f, hd q], s\<lparr>spi_fifo_out := tl q\<rparr>, out + 1000 + 1000)
             else ([0x0f, v, 0, 0], s\<lparr>spi_fifo_out := q\<rparr>, out + 1000)))"
proof (cases "spi_fifo_out s")
  case Nil
  then show ?thesis
    using assms
    by (simp add: build_txbuf_unroll zeros4 tx_guard_def tx_slot_def kfifo_get_def
        TRANSFER_SIZE_def)
next
  case (Cons v q)
  then show ?thesis
    using assms
    by (cases q)
      (simp_all add: build_txbuf_unroll zeros4 tx_guard_def tx_slot_def kfifo_get_def
        TRANSFER_SIZE_def)
qed



subsection \<open>One pass of the loop\<close>

lemma spi_transfer_block:
  "spi_transfer p txbuf TRANSFER_SIZE s =
     (rx_block p s, if pisnd_spi_device s then s\<lparr>spi_log := spi_log s @ [txbuf]\<rparr> else s)"
  by (simp add: spi_transfer_def rx_block_def Let_def split: option.split)

lemma length_rx_block: "length (rx_block p s) = TRANSFER_SIZE"
  by (auto simp: rx_block_def split: option.split)

lemma transmit_to_fifo_frame:
  "transmit_to_fifo s =
     s\<lparr>spi_fifo_out := spi_fifo_out (transmit_to_fifo s),
       g_midi_output_substream := g_midi_output_substream (transmit_to_fifo s)\<rparr>"
  by (simp add: transmit_to_fifo_def Let_def split: option.split)

lemma transmit_to_fifo_None:
  "g_midi_output_substream s = None \<Longrightarrow> transmit_to_fifo s = s"
  by (simp add: transmit_to_fifo_def)

lemma build_txbuf_frame:
  assumes "build_txbuf 0 (replicate TRANSFER_SIZE 0, s, out) = (txbuf, s', out')"
  shows "s' = s\<lparr>g_ledFlashDuration := g_ledFlashDuration s',
                g_ledFlashDurationChanged := False,
                spi_fifo_out := spi_fifo_out s'\<rparr>"
    and "length txbuf = TRANSFER_SIZE"
proof -
  show "s' = s\<lparr>g_ledFlashDuration := g_ledFlashDuration s',
                g_ledFlashDurationChanged := False,
                spi_fifo_out := spi_fifo_out s'\<rparr>"
  proof (cases "g_ledFlashDurationChanged s")
    case True
    show ?thesis
      using assms unfolding build_txbuf_led [OF True] by (auto split: if_splits)
  next
    case False
    show ?thesis
      using assms False unfolding build_txbuf_no_led [OF False]
      by (auto split: if_splits list.splits)
  qed
  show "length txbuf = TRANSFER_SIZE"
  proof (cases "g_ledFlashDurationChanged s")
    case True
    show ?thesis
      using assms unfolding build_txbuf_led [OF True]
      by (auto simp: TRANSFER_SIZE_def split: if_splits)
  next
    case False
    show ?thesis
      using assms False unfolding build_txbuf_no_led [OF False]
      by (auto simp: TRANSFER_SIZE_def split: if_splits list.splits)
  qed
qed

lemma drain_estimate_eq:
  "drain_estimate p (s, out, la) =
     (s\<lparr>jiffies_reads := jiffies_reads s + 1\<rparr>,
      (if jiffies_at p (jiffies_reads s) \<noteq> la then
         (if sint (ucast (scast out - (jiffies_at p (jiffies_reads s) - la) *
                      of_nat (MIDI_MILLIBYTES_PER_JIFFIE p)) :: s32) < 0
          then 0
          else ucast (scast out - (jiffies_at p (jiffies_reads s) - la) *
                      of_nat (MIDI_MILLIBYTES_PER_JIFFIE p)))
       else out),
      jiffies_at p (jiffies_reads s))"
  by (simp add: drain_estimate_def Let_def)

lemma tx_view_fields:
  "pisnd_spi_device (tx_view s) = pisnd_spi_device s"
  "g_ledFlashDuration (tx_view s) = g_ledFlashDuration s"
  "g_ledFlashDurationChanged (tx_view s) = g_ledFlashDurationChanged s"
  "spi_fifo_out (tx_view s) = spi_fifo_out s"
  "g_midi_output_substream (tx_view s) = g_midi_output_substream s"
  "g_recvCallback (tx_view s) = g_recvCallback s"
  "spi_log (tx_view s) = spi_log s"
  "jiffies_reads (tx_view s) = jiffies_reads s"
  "gpio_reads (tx_view s) = gpio_reads s"
  by (simp_all add: tx_view_def)

text \<open>One pass of the loop, in terms of the block it builds.\<close>

lemma work_iteration_props:
  assumes it: "work_iteration p (s, out, la) = ((s', out', la'), again)"
    and b: "build_txbuf 0 (replicate TRANSFER_SIZE 0, transmit_to_fifo s, out) = (txbuf, s2, out2)"
  shows "tx_view s' =
      tx_view (s2\<lparr>spi_log := (if pisnd_spi_device s2 then spi_log s2 @ [txbuf] else spi_log s2),
                  jiffies_reads := jiffies_reads s2 + 1,
                  gpio_reads := (if rx_block p s2 ! 0 \<noteq> 0 \<or> rx_block p s2 ! 2 \<noteq> 0 \<or>
                                    spi_fifo_out s2 \<noteq> []
                                 then gpio_reads s2 else gpio_reads s2 + 1)\<rparr>)"
    and "la' = jiffies_at p (jiffies_reads s2)"
    and "out' =
      (if la' \<noteq> la then
         (if sint (ucast (scast out2 - (la' - la) * of_nat (MIDI_MILLIBYTES_PER_JIFFIE p)) :: s32) < 0
          then 0
          else ucast (scast out2 - (la' - la) * of_nat (MIDI_MILLIBYTES_PER_JIFFIE p)))
       else out2)"
    and "again \<longleftrightarrow>
      rx_block p s2 ! 0 \<noteq> 0 \<or> rx_block p s2 ! 2 \<noteq> 0 \<or> spi_fifo_out s2 \<noteq> [] \<or>
      data_available_at p (gpio_reads s2) \<or> g_ledFlashDurationChanged s2 \<or> out' \<noteq> 0"
proof -
  let ?rx = "rx_block p s2"
  let ?s3 = "if pisnd_spi_device s2 then s2\<lparr>spi_log := spi_log s2 @ [txbuf]\<rparr> else s2"
  let ?s4 = "?s3\<lparr>jiffies_reads := jiffies_reads ?s3 + 1\<rparr>"
  let ?now = "jiffies_at p (jiffies_reads s2)"
  let ?o4 = "if ?now \<noteq> la then
         (if sint (ucast (scast out2 - (?now - la) * of_nat (MIDI_MILLIBYTES_PER_JIFFIE p)) :: s32) < 0
          then 0
          else ucast (scast out2 - (?now - la) * of_nat (MIDI_MILLIBYTES_PER_JIFFIE p)))
       else out2"
  let ?r = "foldl (rx_slot_in ?rx) (?s4, False) [0, 2]"
  let ?had = "?rx ! 0 \<noteq> 0 \<or> ?rx ! 2 \<noteq> 0"
  have jr: "jiffies_reads ?s3 = jiffies_reads s2" by simp
  have d: "drain_estimate p (?s3, out2, la) = (?s4, ?o4, ?now)"
    unfolding drain_estimate_eq jr ..
  obtain s5 h where r: "?r = (s5, h)" by (cases ?r)
  have h: "h = ?had" using rx_loop_had_data [of ?rx ?s4] r by simp
  have v5: "tx_view s5 = tx_view ?s4" using rx_loop_frame [of ?rx ?s4] r by simp
  have w: "work_iteration p (s, out, la) =
    (case loop_condition p h s5 ?o4 of (again, s6) \<Rightarrow> ((s6, ?o4, ?now), again))"
    unfolding work_iteration_def
    by (simp only: prod.case Let_def b spi_transfer_block d r)
  have f5: "spi_fifo_out s5 = spi_fifo_out s2" "gpio_reads s5 = gpio_reads s2"
    "g_ledFlashDurationChanged s5 = g_ledFlashDurationChanged s2"
    using arg_cong [OF v5, of spi_fifo_out] arg_cong [OF v5, of gpio_reads]
      arg_cong [OF v5, of g_ledFlashDurationChanged]
    by (simp_all add: tx_view_fields)
  obtain ag s6 where lc: "loop_condition p h s5 ?o4 = (ag, s6)"
    by (cases "loop_condition p h s5 ?o4")
  from it [unfolded w lc prod.case prod.inject]
  have eqs: "s' = s6" "out' = ?o4" "la' = ?now" "again = ag"
    by blast+
  show "la' = jiffies_at p (jiffies_reads s2)" by (rule eqs(3))
  show "out' =
      (if la' \<noteq> la then
         (if sint (ucast (scast out2 - (la' - la) * of_nat (MIDI_MILLIBYTES_PER_JIFFIE p)) :: s32) < 0
          then 0
          else ucast (scast out2 - (la' - la) * of_nat (MIDI_MILLIBYTES_PER_JIFFIE p)))
       else out2)"
    using eqs(2) unfolding eqs(3) .
  show "again \<longleftrightarrow>
      rx_block p s2 ! 0 \<noteq> 0 \<or> rx_block p s2 ! 2 \<noteq> 0 \<or> spi_fifo_out s2 \<noteq> [] \<or>
      data_available_at p (gpio_reads s2) \<or> g_ledFlashDurationChanged s2 \<or> out' \<noteq> 0"
    using lc unfolding eqs(4) eqs(2) h
    by (auto simp: loop_condition_def pisnd_spi_has_more_def kfifo_is_empty_def f5
        split: if_splits)
  have "s6 = s5\<lparr>gpio_reads := (if ?had \<or> spi_fifo_out s2 \<noteq> []
                                 then gpio_reads s5 else gpio_reads s5 + 1)\<rparr>"
    using lc unfolding h
    by (auto simp: loop_condition_def pisnd_spi_has_more_def kfifo_is_empty_def f5(1)
        split: if_splits)
  then have "tx_view s' = (tx_view s5)\<lparr>gpio_reads := (if ?had \<or> spi_fifo_out s2 \<noteq> []
                                 then gpio_reads s5 else gpio_reads s5 + 1)\<rparr>"
    unfolding eqs(1) by (simp add: tx_view_def)
  then show "tx_view s' =
      tx_view (s2\<lparr>spi_log := (if pisnd_spi_device s2 then spi_log s2 @ [txbuf] else spi_log s2),
                  jiffies_reads := jiffies_reads s2 + 1,
                  gpio_reads := (if rx_block p s2 ! 0 \<noteq> 0 \<or> rx_block p s2 ! 2 \<noteq> 0 \<or>
                                    spi_fifo_out s2 \<noteq> []
                                 then gpio_reads s2 else gpio_reads s2 + 1)\<rparr>)"
    unfolding v5 f5 by (simp add: tx_view_def disj_assoc)
qed


lemma build_frame_fields:
  assumes b: "build_txbuf 0 (replicate TRANSFER_SIZE 0, transmit_to_fifo s, out) = (txbuf, s2, out2)"
  shows "pisnd_spi_device s2 = pisnd_spi_device s" "spi_log s2 = spi_log s"
    "jiffies_reads s2 = jiffies_reads s" "gpio_reads s2 = gpio_reads s"
    "g_midi_output_substream s2 = g_midi_output_substream (transmit_to_fifo s)"
    "g_recvCallback s2 = g_recvCallback s"
    "\<not> g_ledFlashDurationChanged s2" "rx_block p s2 = rx_block p s"
proof -
  note f = build_txbuf_frame(1) [OF b]
  note g = transmit_to_fifo_frame [of s]
  show 1: "pisnd_spi_device s2 = pisnd_spi_device s"
    by (subst f, subst g) simp
  show 2: "spi_log s2 = spi_log s"
    by (subst f, subst g) simp
  show "jiffies_reads s2 = jiffies_reads s"
    by (subst f, subst g) simp
  show "gpio_reads s2 = gpio_reads s"
    by (subst f, subst g) simp
  show "g_midi_output_substream s2 = g_midi_output_substream (transmit_to_fifo s)"
    by (subst f) simp
  show "g_recvCallback s2 = g_recvCallback s"
    by (subst f, subst g) simp
  show "\<not> g_ledFlashDurationChanged s2"
    by (subst f) simp
  show "rx_block p s2 = rx_block p s"
    by (simp add: rx_block_def 1 2)
qed

lemma work_iteration_fields:
  assumes it: "work_iteration p (s, out, la) = ((s', out', la'), again)"
    and b: "build_txbuf 0 (replicate TRANSFER_SIZE 0, transmit_to_fifo s, out) = (txbuf, s2, out2)"
  shows "pisnd_spi_device s' = pisnd_spi_device s"
    and "spi_log s' = (if pisnd_spi_device s then spi_log s @ [txbuf] else spi_log s)"
    and "\<not> g_ledFlashDurationChanged s'"
    and "g_ledFlashDuration s' = g_ledFlashDuration s2"
    and "spi_fifo_out s' = spi_fifo_out s2"
    and "g_midi_output_substream s' = g_midi_output_substream (transmit_to_fifo s)"
    and "g_recvCallback s' = g_recvCallback s"
    and "jiffies_reads s' = jiffies_reads s + 1"
    and "la' = jiffies_at p (jiffies_reads s)"
proof -
  note v = work_iteration_props(1) [OF it b]
  note f = build_frame_fields [OF b]
  show "pisnd_spi_device s' = pisnd_spi_device s"
    using arg_cong [OF v, of pisnd_spi_device] by (simp add: tx_view_fields f)
  show "spi_log s' = (if pisnd_spi_device s then spi_log s @ [txbuf] else spi_log s)"
    using arg_cong [OF v, of spi_log] by (simp add: tx_view_fields f)
  show "\<not> g_ledFlashDurationChanged s'"
    using arg_cong [OF v, of g_ledFlashDurationChanged] by (simp add: tx_view_fields f)
  show "g_ledFlashDuration s' = g_ledFlashDuration s2"
    using arg_cong [OF v, of g_ledFlashDuration] by (simp add: tx_view_fields)
  show "spi_fifo_out s' = spi_fifo_out s2"
    using arg_cong [OF v, of spi_fifo_out] by (simp add: tx_view_fields)
  show "g_midi_output_substream s' = g_midi_output_substream (transmit_to_fifo s)"
    using arg_cong [OF v, of g_midi_output_substream] by (simp add: tx_view_fields f)
  show "g_recvCallback s' = g_recvCallback s"
    using arg_cong [OF v, of g_recvCallback] by (simp add: tx_view_fields f)
  show "jiffies_reads s' = jiffies_reads s + 1"
    using arg_cong [OF v, of jiffies_reads] by (simp add: tx_view_fields f)
  show "la' = jiffies_at p (jiffies_reads s)"
    using work_iteration_props(2) [OF it b] by (simp add: f)
qed

lemma work_iteration_result:
  obtains s' out' la' again where "work_iteration p ls = ((s', out', la'), again)"
proof -
  obtain x again where 1: "work_iteration p ls = (x, again)"
    by (cases "work_iteration p ls")
  obtain s' out' la' where "x = (s', out', la')"
    by (cases x)
  with 1 that show ?thesis by blast
qed

lemma quiet_first_block:
  "build_txbuf 0 (replicate TRANSFER_SIZE 0, transmit_to_fifo queued_driver, 0) =
     ([0x0f, 1, 0x0f, 2], queued_driver\<lparr>spi_fifo_out := [3, 4, 5, 6, 7, 8, 9, 10]\<rparr>, 2000)"
proof -
  have q: "g_midi_output_substream queued_driver = None"
    "\<not> g_ledFlashDurationChanged queued_driver"
    "spi_fifo_out queued_driver = [1, 2, 3, 4, 5, 6, 7, 8, 9, 10]"
    by (simp_all add: queued_driver_def fresh_driver_def)
  show ?thesis
    unfolding transmit_to_fifo_None [OF q(1)] build_txbuf_no_led [OF q(2)] q(3)
    by (simp add: PISOUND_OUTPUT_BUFFER_SIZE_MILLIBYTES_def)
qed

subsection \<open>The condition of the loop\<close>

text \<open>
  The flag and the state with which a pass ends are what the condition of the \<open>do\<close>
  loop returns, evaluated with the estimate of that pass, with \<open>had_data\<close> saying
  whether a slot received in that pass had a non-zero validity byte, and in the state
  that the body of the loop has reached (the final state, before the line was read).
\<close>

lemma work_iteration_test:
  assumes it: "work_iteration p (s, out, la) = ((s', out', la'), again)"
  shows "loop_condition p (rx_block p s ! 0 \<noteq> 0 \<or> rx_block p s ! 2 \<noteq> 0)
           (s'\<lparr>gpio_reads := gpio_reads s\<rparr>) out' = (again, s')"
proof -
  obtain txbuf s2 out2 where
    b: "build_txbuf 0 (replicate TRANSFER_SIZE 0, transmit_to_fifo s, out) = (txbuf, s2, out2)"
    by (metis prod_cases3)
  note f = build_frame_fields [OF b]
  let ?rx = "rx_block p s2"
  let ?s3 = "if pisnd_spi_device s2 then s2\<lparr>spi_log := spi_log s2 @ [txbuf]\<rparr> else s2"
  obtain s4 out4 la4 where d: "drain_estimate p (?s3, out2, la) = (s4, out4, la4)"
    by (metis prod_cases3)
  have g4: "gpio_reads s4 = gpio_reads s2"
    using d by (auto simp: drain_estimate_def Let_def split: if_splits)
  obtain t h where r: "foldl (rx_slot_in ?rx) (s4, False) [0, 2] = (t, h)"
    by (cases "foldl (rx_slot_in ?rx) (s4, False) [0, 2]")
  have h: "h = (rx_block p s ! 0 \<noteq> 0 \<or> rx_block p s ! 2 \<noteq> 0)"
    using rx_loop_had_data [of ?rx s4] r unfolding f(8) by simp
  have v: "tx_view t = tx_view s4"
    using rx_loop_frame [of ?rx s4] r by simp
  have gt: "gpio_reads t = gpio_reads s"
    using arg_cong [OF v, of gpio_reads] by (simp add: tx_view_fields g4 f(4))
  have w: "work_iteration p (s, out, la) =
    (case loop_condition p h t out4 of (again, s6) \<Rightarrow> ((s6, out4, la4), again))"
    unfolding work_iteration_def
    by (simp only: prod.case Let_def b spi_transfer_block d r)
  obtain ag s6 where lc: "loop_condition p h t out4 = (ag, s6)"
    by (cases "loop_condition p h t out4")
  from it [unfolded w lc prod.case prod.inject]
  have eqs: "s' = s6" "out' = out4" "again = ag"
    by blast+
  have "t = s6\<lparr>gpio_reads := gpio_reads t\<rparr>"
    using lc
    by (auto simp: loop_condition_def pisnd_spi_has_more_def split: if_splits)
  then have t: "s'\<lparr>gpio_reads := gpio_reads s\<rparr> = t"
    unfolding eqs gt by simp
  from lc show ?thesis
    unfolding t unfolding eqs h .
qed

text \<open>
  C3. The condition of the loop, evaluated in any driver state \<open>t\<close> (so also one in
  which \<open>pisnd_spi_flash_leds\<close> has requested an LED command since the block of this
  pass was built), with any estimate and any \<open>had_data\<close>, is true exactly when one of
  these holds: a received slot had a non-zero validity byte, the outbound queue is not
  empty, the data-available line is asserted, an LED command is pending, or the estimate
  is not zero. The flag with which a pass ends is the value of this condition in the
  state that the body of the pass has reached, so it is true exactly when one of the
  five holds there; and the loop goes round again exactly when the flag is true, else
  it is left with the state reached.
\<close>

theorem loop_continuation_condition:
  assumes it: "work_iteration p (s, out, la) = ((s', out', la'), again)"
  shows "(\<forall>had_data t e.
            fst (loop_condition p had_data t e) \<longleftrightarrow>
              had_data \<or>
              spi_fifo_out t \<noteq> [] \<or>
              data_available_at p (gpio_reads t) \<or>
              g_ledFlashDurationChanged t \<or>
              e \<noteq> 0) \<and>
         loop_condition p (rx_block p s ! 0 \<noteq> 0 \<or> rx_block p s ! 2 \<noteq> 0)
           (s'\<lparr>gpio_reads := gpio_reads s\<rparr>) out' = (again, s') \<and>
         (again \<longleftrightarrow>
            (rx_block p s ! 0 \<noteq> 0 \<or> rx_block p s ! 2 \<noteq> 0) \<or>
            spi_fifo_out s' \<noteq> [] \<or>
            data_available_at p (gpio_reads s) \<or>
            g_ledFlashDurationChanged s' \<or>
            out' \<noteq> 0) \<and>
         work_loop p (s, out, la) =
           (if again then work_loop p (s', out', la') else Some s')"
proof -
  have c: "fst (loop_condition p had_data t e) \<longleftrightarrow>
      had_data \<or> spi_fifo_out t \<noteq> [] \<or> data_available_at p (gpio_reads t) \<or>
      g_ledFlashDurationChanged t \<or> e \<noteq> 0" for had_data t e
    by (simp add: loop_condition_def pisnd_spi_has_more_def kfifo_is_empty_def)
  note w = work_iteration_test [OF it]
  have a: "again \<longleftrightarrow>
      (rx_block p s ! 0 \<noteq> 0 \<or> rx_block p s ! 2 \<noteq> 0) \<or> spi_fifo_out s' \<noteq> [] \<or>
      data_available_at p (gpio_reads s) \<or> g_ledFlashDurationChanged s' \<or> out' \<noteq> 0"
    using c [of "rx_block p s ! 0 \<noteq> 0 \<or> rx_block p s ! 2 \<noteq> 0"
        "s'\<lparr>gpio_reads := gpio_reads s\<rparr>" out'] unfolding w by simp
  have l: "work_loop p (s, out, la) =
           (if again then work_loop p (s', out', la') else Some s')"
    by (subst work_loop.simps) (simp add: it)
  from c w a l show ?thesis by blast
qed

theorem loop_continuation_condition_witness:
  "fst (loop_condition quiet_platform False (pisnd_spi_flash_leds 10 fresh_driver) 0) \<and>
   \<not> fst (loop_condition quiet_platform False fresh_driver 0) \<and>
   (\<exists>s' out' la'.
      work_iteration quiet_platform (queued_driver, 0, 0) = ((s', out', la'), True) \<and>
      spi_fifo_out s' = [3, 4, 5, 6, 7, 8, 9, 10] \<and>
      work_loop quiet_platform (queued_driver, 0, 0) = work_loop quiet_platform (s', out', la'))"
proof -
  obtain s' out' la' again where
    it: "work_iteration quiet_platform (queued_driver, 0, 0) = ((s', out', la'), again)"
    by (rule work_iteration_result)
  note T = loop_continuation_condition [OF it]
  from T have c: "fst (loop_condition quiet_platform had_data t e) \<longleftrightarrow>
      had_data \<or> spi_fifo_out t \<noteq> [] \<or> data_available_at quiet_platform (gpio_reads t) \<or>
      g_ledFlashDurationChanged t \<or> e \<noteq> 0" for had_data t e
    by blast
  have led: "g_ledFlashDurationChanged (pisnd_spi_flash_leds 10 fresh_driver)"
    by (simp add: pisnd_spi_flash_leds_def pisnd_schedule_process_def fresh_driver_def)
  have 1: "fst (loop_condition quiet_platform False (pisnd_spi_flash_leds 10 fresh_driver) 0)"
    unfolding c using led by simp
  have 2: "\<not> fst (loop_condition quiet_platform False fresh_driver 0)"
    unfolding c by (simp add: fresh_driver_def quiet_platform_def)
  have q: "spi_fifo_out s' = [3, 4, 5, 6, 7, 8, 9, 10]"
    using work_iteration_fields(5) [OF it quiet_first_block] by simp
  with T have "again"
    and "work_loop quiet_platform (queued_driver, 0, 0) = work_loop quiet_platform (s', out', la')"
    by simp_all
  with it q have "\<exists>s' out' la'.
      work_iteration quiet_platform (queued_driver, 0, 0) = ((s', out', la'), True) \<and>
      spi_fifo_out s' = [3, 4, 5, 6, 7, 8, 9, 10] \<and>
      work_loop quiet_platform (queued_driver, 0, 0) = work_loop quiet_platform (s', out', la')"
    by (intro exI [of _ s'] exI [of _ out'] exI [of _ la']) simp
  with 1 2 show ?thesis by blast
qed

subsection \<open>The size of a block\<close>

text \<open>
  C7, as stated, fails: \<open>TRANSFER_SIZE\<close> counts bytes, and the first block that the
  handler exchanges on the example has 4 bytes, not 8.
\<close>

theorem block_size_counterexample:
  "length (hd (spi_log (fst (fst (work_iteration quiet_platform (queued_driver, 0, 0)))))) = 4 \<and>
   length (hd (spi_log (fst (fst (work_iteration quiet_platform (queued_driver, 0, 0)))))) \<noteq> 8"
proof -
  obtain s' out' la' again where
    it: "work_iteration quiet_platform (queued_driver, 0, 0) = ((s', out', la'), again)"
    by (rule work_iteration_result)
  have "spi_log s' = [[0x0f, 1, 0x0f, 2]]"
    using work_iteration_fields(2) [OF it quiet_first_block]
    by (simp add: queued_driver_def fresh_driver_def)
  then show ?thesis unfolding it by simp
qed

text \<open>
  C7, amended. Every pass of the loop, with the device present, hands exactly one block
  of \<open>TRANSFER_SIZE\<close> = 4 bytes to the bus, that is 2 slots of 16 bits, and receives
  4 bytes.
\<close>

theorem block_size:
  assumes "pisnd_spi_device s"
    and "work_iteration p (s, out, la) = ((s', out', la'), again)"
  shows "\<exists>txbuf. spi_log s' = spi_log s @ [txbuf] \<and>
           length txbuf = 4 \<and> length (slots_of txbuf) = 2 \<and> length (rx_block p s) = 4"
proof -
  obtain txbuf s2 out2 where
    b: "build_txbuf 0 (replicate TRANSFER_SIZE 0, transmit_to_fifo s, out) = (txbuf, s2, out2)"
    by (metis prod_cases3)
  have "spi_log s' = spi_log s @ [txbuf]"
    using work_iteration_fields(2) [OF assms(2) b] assms(1) by simp
  moreover have "length txbuf = 4"
    using build_txbuf_frame(2) [OF b] by (simp add: TRANSFER_SIZE_def)
  moreover have "length (rx_block p s) = 4"
    by (simp add: length_rx_block TRANSFER_SIZE_def)
  ultimately show ?thesis by (simp add: slots_of_def)
qed

theorem block_size_witness:
  "pisnd_spi_device queued_driver \<and>
   (\<exists>s' out' la' again.
      work_iteration quiet_platform (queued_driver, 0, 0) = ((s', out', la'), again) \<and>
      (\<exists>txbuf. spi_log s' = spi_log queued_driver @ [txbuf] \<and>
           length txbuf = 4 \<and> length (slots_of txbuf) = 2 \<and>
           length (rx_block quiet_platform queued_driver) = 4))"
proof -
  obtain s' out' la' again where
    it: "work_iteration quiet_platform (queued_driver, 0, 0) = ((s', out', la'), again)"
    by (rule work_iteration_result)
  have dev: "pisnd_spi_device queued_driver"
    by (simp add: queued_driver_def fresh_driver_def)
  from block_size [OF dev it] it dev show ?thesis by blast
qed

subsection \<open>The estimate belongs to one activation\<close>

text \<open>
  C10. Whatever the driver state is when the handler starts, in particular after an
  earlier activation, the loop is entered with the estimate 0. So the first block of an
  activation with the device present and no LED command pending always carries the
  first bytes of the outbound queue: nothing of an earlier activation throttles it.
\<close>

theorem estimate_is_per_activation:
  assumes dev: "pisnd_spi_device s" and led: "\<not> g_ledFlashDurationChanged s"
    and q: "spi_fifo_out (transmit_to_fifo s) = v # q"
    and it: "work_iteration p (work_start p s) = ((s', out', la'), again)"
  shows "fst (snd (work_start p s)) = 0 \<and>
         spi_log s' =
           spi_log s @ [if q = [] then [0x0f, v, 0, 0] else [0x0f, v, 0x0f, hd q]]"
proof -
  let ?s0 = "s\<lparr>jiffies_reads := jiffies_reads s + 1\<rparr>"
  have ws: "work_start p s = (?s0, 0, jiffies_at p (jiffies_reads s))"
    by (simp add: work_start_def)
  have t: "transmit_to_fifo ?s0 = (transmit_to_fifo s)\<lparr>jiffies_reads := jiffies_reads s + 1\<rparr>"
    by (simp add: transmit_to_fifo_def Let_def split: option.split)
  have led0: "\<not> g_ledFlashDurationChanged (transmit_to_fifo ?s0)"
    unfolding t using led by (subst transmit_to_fifo_frame) simp
  have q0: "spi_fifo_out (transmit_to_fifo ?s0) = v # q"
    unfolding t using q by simp
  obtain txbuf s2 out2 where
    b: "build_txbuf 0 (replicate TRANSFER_SIZE 0, transmit_to_fifo ?s0, 0) = (txbuf, s2, out2)"
    by (metis prod_cases3)
  have "txbuf = (if q = [] then [0x0f, v, 0, 0] else [0x0f, v, 0x0f, hd q])"
    using b unfolding build_txbuf_no_led [OF led0] q0
    by (auto simp: PISOUND_OUTPUT_BUFFER_SIZE_MILLIBYTES_def split: if_splits)
  moreover have "spi_log s' = spi_log s @ [txbuf]"
    using work_iteration_fields(2) [OF it [unfolded ws] b] dev by simp
  ultimately show ?thesis by (simp add: ws)
qed

theorem estimate_is_per_activation_witness:
  "pisnd_spi_device queued_driver \<and> \<not> g_ledFlashDurationChanged queued_driver \<and>
   spi_fifo_out (transmit_to_fifo queued_driver) = 1 # [2, 3, 4, 5, 6, 7, 8, 9, 10] \<and>
   (\<exists>s' out' la' again.
      work_iteration quiet_platform (work_start quiet_platform queued_driver) =
        ((s', out', la'), again) \<and>
      fst (snd (work_start quiet_platform queued_driver)) = 0 \<and>
      spi_log s' = [[0x0f, 1, 0x0f, 2]])"
proof -
  obtain s' out' la' again where
    it: "work_iteration quiet_platform (work_start quiet_platform queued_driver) =
      ((s', out', la'), again)"
    by (rule work_iteration_result)
  have dev: "pisnd_spi_device queued_driver"
    and led: "\<not> g_ledFlashDurationChanged queued_driver"
    and q: "spi_fifo_out (transmit_to_fifo queued_driver) = 1 # [2, 3, 4, 5, 6, 7, 8, 9, 10]"
    and l: "spi_log queued_driver = []"
    by (simp_all add: queued_driver_def fresh_driver_def transmit_to_fifo_def)
  from estimate_is_per_activation [OF dev led q it] l
  have "fst (snd (work_start quiet_platform queued_driver)) = 0 \<and>
      spi_log s' = [[0x0f, 1, 0x0f, 2]]"
    by simp
  with it dev led q show ?thesis by blast
qed

subsection \<open>LED commands in the blocks sent\<close>

lemma led_commands_append: "led_commands (xs @ ys) = led_commands xs @ led_commands ys"
  by (simp add: led_commands_def)

lemma led_commands_block:
  assumes b: "build_txbuf 0 (replicate TRANSFER_SIZE 0, s, out) = (txbuf, s2, out2)"
  shows "led_commands [txbuf] =
     (if g_ledFlashDurationChanged s then [g_ledFlashDuration s] else [])"
proof (cases "g_ledFlashDurationChanged s")
  case True
  show ?thesis
    using b True unfolding build_txbuf_led [OF True]
    by (auto simp: led_commands_def slots_of_def split: if_splits)
next
  case False
  show ?thesis
    using b False unfolding build_txbuf_no_led [OF False]
    by (auto simp: led_commands_def slots_of_def split: if_splits list.splits)
qed

lemma transmit_to_fifo_led:
  "g_ledFlashDurationChanged (transmit_to_fifo s) = g_ledFlashDurationChanged s"
  "g_ledFlashDuration (transmit_to_fifo s) = g_ledFlashDuration s"
  by (subst transmit_to_fifo_frame, simp)+

lemma work_iteration_led:
  assumes it: "work_iteration p (s, out, la) = ((s', out', la'), again)"
    and dev: "pisnd_spi_device s"
  shows "\<exists>txbuf. spi_log s' = spi_log s @ [txbuf] \<and>
      led_commands [txbuf] = (if g_ledFlashDurationChanged s then [g_ledFlashDuration s] else [])"
    and "\<not> g_ledFlashDurationChanged s'" and "pisnd_spi_device s'"
proof -
  obtain txbuf s2 out2 where
    b: "build_txbuf 0 (replicate TRANSFER_SIZE 0, transmit_to_fifo s, out) = (txbuf, s2, out2)"
    by (metis prod_cases3)
  note f = work_iteration_fields [OF it b]
  show "\<exists>txbuf. spi_log s' = spi_log s @ [txbuf] \<and>
      led_commands [txbuf] = (if g_ledFlashDurationChanged s then [g_ledFlashDuration s] else [])"
    using f(2) dev led_commands_block [OF b] by (simp add: transmit_to_fifo_led)
  show "\<not> g_ledFlashDurationChanged s'" by (rule f(3))
  show "pisnd_spi_device s'" using f(1) dev by simp
qed

lemma work_loop_upto_Suc_cases:
  assumes "work_loop_upto (Suc n) p ls = r" and "work_iteration p ls = (ls1, again)"
  shows "work_loop_upto n p ls1 = r \<or> r = ls1"
  using assms by (cases again) simp_all

lemma no_led_commands_later:
  assumes "work_loop_upto n p (s, out, la) = (s', out', la')"
    and "pisnd_spi_device s" and "\<not> g_ledFlashDurationChanged s"
  shows "\<exists>blocks. spi_log s' = spi_log s @ blocks \<and> led_commands blocks = [] \<and>
    \<not> g_ledFlashDurationChanged s'"
  using assms
proof (induction n arbitrary: s out la)
  case 0
  then show ?case by (simp add: led_commands_def)
next
  case (Suc n)
  obtain s1 out1 la1 again where
    it: "work_iteration p (s, out, la) = ((s1, out1, la1), again)"
    by (rule work_iteration_result)
  from work_iteration_led [OF it Suc.prems(2)] Suc.prems(3)
  obtain txbuf where 1: "spi_log s1 = spi_log s @ [txbuf]" "led_commands [txbuf] = []"
    and led1: "\<not> g_ledFlashDurationChanged s1" and dev1: "pisnd_spi_device s1"
    by auto
  from work_loop_upto_Suc_cases [OF Suc.prems(1) it]
  show ?case
  proof
    assume "work_loop_upto n p (s1, out1, la1) = (s', out', la')"
    from Suc.IH [OF this dev1 led1]
    obtain blocks where "spi_log s' = spi_log s1 @ blocks" "led_commands blocks = []"
      "\<not> g_ledFlashDurationChanged s'" by blast
    with 1 have "spi_log s' = spi_log s @ (txbuf # blocks) \<and> led_commands (txbuf # blocks) = [] \<and>
      \<not> g_ledFlashDurationChanged s'"
      using led_commands_append [of "[txbuf]" blocks] by simp
    then show ?thesis by blast
  next
    assume "(s', out', la') = (s1, out1, la1)"
    with 1 led1 show ?thesis by blast
  qed
qed

text \<open>
  C9. After \<open>pisnd_spi_flash_leds 5\<close> and then \<open>pisnd_spi_flash_leds 10\<close>, with no
  activation in between, one request is pending, with duration 10. At every point of
  the next activation from its first pass on (after any number of passes, and when the
  loop has been left), the blocks sent by this activation contain exactly one LED
  command, with duration 10, and the request is no longer pending.
\<close>

theorem led_last_write_wins:
  assumes dev: "pisnd_spi_device s"
    and run: "work_loop_upto (Suc n) p
      (work_start p (pisnd_spi_flash_leds 10 (pisnd_spi_flash_leds 5 s))) = (s', out', la')"
  shows "g_ledFlashDurationChanged (pisnd_spi_flash_leds 10 (pisnd_spi_flash_leds 5 s)) \<and>
         g_ledFlashDuration (pisnd_spi_flash_leds 10 (pisnd_spi_flash_leds 5 s)) = 10 \<and>
         led_commands (drop (length (spi_log s)) (spi_log s')) = [10] \<and>
         \<not> g_ledFlashDurationChanged s'"
proof -
  let ?s2 = "pisnd_spi_flash_leds 10 (pisnd_spi_flash_leds 5 s)"
  let ?s0 = "?s2\<lparr>jiffies_reads := jiffies_reads ?s2 + 1\<rparr>"
  have s2: "g_ledFlashDurationChanged ?s2" "g_ledFlashDuration ?s2 = 10"
    "pisnd_spi_device ?s2" "spi_log ?s2 = spi_log s"
    using dev by (simp_all add: pisnd_spi_flash_leds_def pisnd_schedule_process_def)
  have ws: "work_start p ?s2 = (?s0, 0, jiffies_at p (jiffies_reads ?s2))"
    by (simp add: work_start_def)
  obtain s1 out1 la1 again where
    it: "work_iteration p (work_start p ?s2) = ((s1, out1, la1), again)"
    by (rule work_iteration_result)
  have dev0: "pisnd_spi_device ?s0" using s2(3) by simp
  from work_iteration_led [OF it [unfolded ws] dev0] s2
  obtain txbuf where 1: "spi_log s1 = spi_log s @ [txbuf]" "led_commands [txbuf] = [10]"
    and led1: "\<not> g_ledFlashDurationChanged s1" and dev1: "pisnd_spi_device s1"
    by auto
  from work_loop_upto_Suc_cases [OF run it]
  have "\<exists>blocks. spi_log s' = spi_log s1 @ blocks \<and> led_commands blocks = [] \<and>
    \<not> g_ledFlashDurationChanged s'"
  proof
    assume "work_loop_upto n p (s1, out1, la1) = (s', out', la')"
    from no_led_commands_later [OF this dev1 led1] show ?thesis .
  next
    assume "(s', out', la') = (s1, out1, la1)"
    with led1 show ?thesis by (simp add: led_commands_def)
  qed
  then obtain blocks where 2: "spi_log s' = spi_log s1 @ blocks" "led_commands blocks = []"
    and led': "\<not> g_ledFlashDurationChanged s'"
    by blast
  have "led_commands (drop (length (spi_log s)) (spi_log s')) = [10]"
    unfolding 2 1 using 1(2) 2(2) led_commands_append [of "[txbuf]" blocks] by simp
  with led' s2 show ?thesis by simp
qed

theorem led_last_write_wins_witness:
  "pisnd_spi_device queued_driver \<and>
   (\<exists>s' out' la'.
      work_loop_upto (Suc 0) quiet_platform
        (work_start quiet_platform
          (pisnd_spi_flash_leds 10 (pisnd_spi_flash_leds 5 queued_driver))) = (s', out', la') \<and>
      led_commands (drop (length (spi_log queued_driver)) (spi_log s')) = [10] \<and>
      \<not> g_ledFlashDurationChanged s')"
proof -
  have dev: "pisnd_spi_device queued_driver"
    by (simp add: queued_driver_def fresh_driver_def)
  obtain s' out' la' where
    run: "work_loop_upto (Suc 0) quiet_platform
        (work_start quiet_platform
          (pisnd_spi_flash_leds 10 (pisnd_spi_flash_leds 5 queued_driver))) = (s', out', la')"
    by (metis prod_cases3)
  from led_last_write_wins [OF dev run] run dev show ?thesis by blast
qed

text \<open>
  A handler that returns has left the loop after some number of passes, so what holds
  after any number of passes holds for its result.
\<close>

lemma work_loop_Some_upto:
  assumes "work_loop p ls = Some r"
  shows "\<exists>n. fst (work_loop_upto (Suc n) p ls) = r"
  using assms
proof (induction rule: work_loop.raw_induct [rotated 1, consumes 1])
  case (1 work_loop p ls r)
  obtain ls' again where it: "work_iteration p ls = (ls', again)"
    by (cases "work_iteration p ls")
  show ?case
  proof (cases again)
    case True
    with 1(2) it have "work_loop p ls' = Some r" by simp
    from 1(1) [OF this] obtain n where "fst (work_loop_upto (Suc n) p ls') = r" ..
    with it True have "fst (work_loop_upto (Suc (Suc n)) p ls) = r" by simp
    then show ?thesis ..
  next
    case False
    with 1(2) it have "fst (work_loop_upto (Suc 0) p ls) = r" by simp
    then show ?thesis ..
  qed
qed

subsection \<open>The estimate\<close>

lemma ucast_word_of_int_s32:
  assumes "32 \<le> LENGTH('l::len)"
  shows "(ucast (word_of_int k :: 'l word) :: s32) = word_of_int k"
proof -
  have "take_bit 32 (take_bit LENGTH('l) k) = take_bit 32 k"
    using assms by (simp add: min_def)
  then have "(word_of_int (take_bit LENGTH('l) k) :: s32) = word_of_int k"
    by (simp add: word_of_int_eq_iff)
  then show ?thesis
    unfolding ucast_eq [of "word_of_int k :: 'l word"] uint_word_of_int_eq .
qed

lemma sint_word_of_int_s32:
  assumes "- (2 ^ 31) \<le> k" and "k < 2 ^ 31"
  shows "sint (word_of_int k :: s32) = k"
proof -
  have "sint (word_of_int k :: s32) = signed_take_bit 31 k"
    by (simp add: signed_of_int)
  also have "\<dots> = k"
    using assms by (intro signed_take_bit_int_eq_self) simp_all
  finally show ?thesis .
qed

lemma drain_word:
  fixes out2 :: s32 and e :: "'l::len word"
  assumes L: "32 \<le> LENGTH('l)"
    and x: "- (2 ^ 31) \<le> sint out2 - int (unat e * r)" "sint out2 - int (unat e * r) < 2 ^ 31"
  shows "sint (ucast (scast out2 - e * of_nat r :: 'l word) :: s32) =
    sint out2 - int (unat e * r)"
proof -
  define k where "k = sint out2 - int (unat e * r)"
  have 1: "(scast out2 :: 'l word) = word_of_int (sint out2)"
    by (rule scast_eq)
  have 2: "e * of_nat r = (word_of_int (int (unat e * r)) :: 'l word)"
    by simp
  have 3: "(scast out2 - e * of_nat r :: 'l word) = word_of_int k"
    unfolding 1 2 k_def by (simp only: of_int_diff)
  show ?thesis
    unfolding 3 ucast_word_of_int_s32 [OF L] using x
    unfolding k_def [symmetric] by (rule sint_word_of_int_s32)
qed

lemma sint_add_small:
  fixes out :: s32
  assumes "0 \<le> sint out" and "sint out < 127000" and "0 \<le> k" and "k \<le> 2000"
  shows "sint (out + word_of_int k) = sint out + k"
proof -
  have "out + word_of_int k = word_of_int (sint out + k)"
    by (simp only: of_int_add of_int_sint) simp
  moreover have "sint (word_of_int (sint out + k) :: s32) = sint out + k"
    using assms by (intro sint_word_of_int_s32) simp_all
  ultimately show ?thesis by simp
qed

lemma sint_add_1000:
  fixes out :: s32
  assumes "0 \<le> sint out" and "sint out < 127000"
  shows "sint (out + 1000) = sint out + 1000" "sint (out + 1000 + 1000) = sint out + 2000"
    "sint (1000 + out) = sint out + 1000" "sint (2000 + out) = sint out + 2000"
proof -
  show 1: "sint (out + 1000) = sint out + 1000"
    using sint_add_small [OF assms, of 1000] by simp
  show 2: "sint (out + 1000 + 1000) = sint out + 2000"
    using sint_add_small [OF assms, of 2000] by (simp add: add.assoc)
  show "sint (1000 + out) = sint out + 1000"
    using 1 by (simp add: add.commute)
  show "sint (2000 + out) = sint out + 2000"
    using 2 by (simp add: add.commute add.assoc)
qed

text \<open>The estimate after the drain, when the clock step is short.\<close>

lemma drained_estimate:
  fixes out2 :: s32 and la la' :: "'l::len word"
  assumes L: "32 \<le> LENGTH('l)"
    and o: "0 \<le> sint out2" "sint out2 < 127000"
    and e: "unat (la' - la) * r < 2 ^ 31"
  shows "sint (if la' \<noteq> la then
           (if sint (ucast (scast out2 - (la' - la) * of_nat r) :: s32) < 0
            then 0
            else ucast (scast out2 - (la' - la) * of_nat r))
          else out2) =
         max 0 (sint out2 - int (unat (la' - la) * r))"
proof (cases "la' = la")
  case True
  with o show ?thesis by simp
next
  case False
  have e': "int (unat (la' - la) * r) < 2 ^ 31"
    using e by (metis of_nat_less_iff of_nat_numeral of_nat_power)
  define d where "d = int (unat (la' - la) * r)"
  have d: "0 \<le> d" "d < 2 ^ 31"
    using e' by (simp_all add: d_def)
  have lo: "- (2 ^ 31) \<le> sint out2 - d" and hi: "sint out2 - d < 2 ^ 31"
    using o d by simp_all
  have "sint (ucast (scast out2 - (la' - la) * of_nat r :: 'l word) :: s32) =
    sint out2 - int (unat (la' - la) * r)"
    using lo hi unfolding d_def by (rule drain_word [OF L])
  with False show ?thesis by (simp add: max_def)
qed

lemma build_estimate:
  assumes b: "build_txbuf 0 (replicate TRANSFER_SIZE 0, s, out) = (txbuf, s2, out2)"
    and o: "0 \<le> sint out" "sint out < PISOUND_OUTPUT_BUFFER_SIZE_MILLIBYTES"
  shows "0 \<le> sint out2" and "sint out2 < PISOUND_OUTPUT_BUFFER_SIZE_MILLIBYTES"
    and "txbuf ! 0 = 0x0f \<longrightarrow> sint out + 1000 < PISOUND_OUTPUT_BUFFER_SIZE_MILLIBYTES"
    and "txbuf ! 2 = 0x0f \<longrightarrow>
      sint (if txbuf ! 0 = 0x0f then out + 1000 else out) + 1000 <
        PISOUND_OUTPUT_BUFFER_SIZE_MILLIBYTES"
    and "sint out2 =
      sint out + 1000 * (int (length (spi_fifo_out s)) - int (length (spi_fifo_out s2)))"
proof -
  have o': "0 \<le> sint out" "sint out < 127000"
    using o by (simp_all add: PISOUND_OUTPUT_BUFFER_SIZE_MILLIBYTES_def)
  note a = sint_add_1000 [OF o']
  have all: "0 \<le> sint out2 \<and> sint out2 < PISOUND_OUTPUT_BUFFER_SIZE_MILLIBYTES \<and>
    (txbuf ! 0 = 0x0f \<longrightarrow> sint out + 1000 < PISOUND_OUTPUT_BUFFER_SIZE_MILLIBYTES) \<and>
    (txbuf ! 2 = 0x0f \<longrightarrow>
      sint (if txbuf ! 0 = 0x0f then out + 1000 else out) + 1000 <
        PISOUND_OUTPUT_BUFFER_SIZE_MILLIBYTES) \<and>
    sint out2 =
      sint out + 1000 * (int (length (spi_fifo_out s)) - int (length (spi_fifo_out s2)))"
  proof (cases "g_ledFlashDurationChanged s")
    case True
    show ?thesis
      using b o' unfolding build_txbuf_led [OF True] a
      by (cases "spi_fifo_out s")
        (auto simp: PISOUND_OUTPUT_BUFFER_SIZE_MILLIBYTES_def a split: if_splits)
  next
    case False
    show ?thesis
    proof (cases "spi_fifo_out s")
      case Nil
      then show ?thesis
        using b o' unfolding build_txbuf_no_led [OF False] a
        by (auto simp: PISOUND_OUTPUT_BUFFER_SIZE_MILLIBYTES_def a split: if_splits)
    next
      case (Cons v q)
      then show ?thesis
        using b o' unfolding build_txbuf_no_led [OF False] a
        by (cases q)
          (auto simp: PISOUND_OUTPUT_BUFFER_SIZE_MILLIBYTES_def a split: if_splits)
    qed
  qed
  from all show "0 \<le> sint out2" and "sint out2 < PISOUND_OUTPUT_BUFFER_SIZE_MILLIBYTES"
    and "txbuf ! 0 = 0x0f \<longrightarrow> sint out + 1000 < PISOUND_OUTPUT_BUFFER_SIZE_MILLIBYTES"
    and "txbuf ! 2 = 0x0f \<longrightarrow>
      sint (if txbuf ! 0 = 0x0f then out + 1000 else out) + 1000 <
        PISOUND_OUTPUT_BUFFER_SIZE_MILLIBYTES"
    and "sint out2 =
      sint out + 1000 * (int (length (spi_fifo_out s)) - int (length (spi_fifo_out s2)))"
    by blast+
qed


lemma work_iteration_estimate:
  assumes L: "32 \<le> LENGTH('l::len)" and c: "steady_clock (p :: 'l platform)"
    and inv: "loop_inv p (s, out, la)"
    and it: "work_iteration p (s, out, la) = ((s', out', la'), again)"
    and b: "build_txbuf 0 (replicate TRANSFER_SIZE 0, transmit_to_fifo s, out) = (txbuf, s2, out2)"
  shows "sint out' =
      max 0 (sint out2 -
        int (clock_step p (jiffies_reads s - 1) * MIDI_MILLIBYTES_PER_JIFFIE p))"
    and "loop_inv p (s', out', la')"
proof -
  from inv have o: "0 \<le> sint out" "sint out < PISOUND_OUTPUT_BUFFER_SIZE_MILLIBYTES"
    and k: "0 < jiffies_reads s" and la: "la = jiffies_at p (jiffies_reads s - 1)"
    by (simp_all add: loop_inv_def)
  note e = build_estimate [OF b o]
  note f = work_iteration_fields [OF it b]
  note g = build_frame_fields [OF b]
  have la': "la' = jiffies_at p (Suc (jiffies_reads s - 1))"
    using f(9) k by simp
  have st: "unat (la' - la) = clock_step p (jiffies_reads s - 1)"
    unfolding la la' by (simp add: clock_step_def)
  have bound: "unat (la' - la) * MIDI_MILLIBYTES_PER_JIFFIE p < 2 ^ 31"
    unfolding st using c by (simp add: steady_clock_def)
  have o2: "0 \<le> sint out2" "sint out2 < 127000"
    using e(1,2) by (simp_all add: PISOUND_OUTPUT_BUFFER_SIZE_MILLIBYTES_def)
  have out': "out' =
      (if la' \<noteq> la then
         (if sint (ucast (scast out2 - (la' - la) * of_nat (MIDI_MILLIBYTES_PER_JIFFIE p)) :: s32) < 0
          then 0
          else ucast (scast out2 - (la' - la) * of_nat (MIDI_MILLIBYTES_PER_JIFFIE p)))
       else out2)"
    by (rule work_iteration_props(3) [OF it b])
  show v: "sint out' =
      max 0 (sint out2 -
        int (clock_step p (jiffies_reads s - 1) * MIDI_MILLIBYTES_PER_JIFFIE p))"
    unfolding out' st [symmetric] by (rule drained_estimate [OF L o2 bound])
  have "0 \<le> sint out'" "sint out' \<le> sint out2"
    unfolding v using o2 by simp_all
  then show "loop_inv p (s', out', la')"
    using o2 f(8) la' k
    by (simp add: loop_inv_def PISOUND_OUTPUT_BUFFER_SIZE_MILLIBYTES_def)
qed

lemma loop_inv_start: "loop_inv p (work_start p s)"
  by (simp add: loop_inv_def work_start_def PISOUND_OUTPUT_BUFFER_SIZE_MILLIBYTES_def)

lemma loop_inv_upto:
  assumes L: "32 \<le> LENGTH('l::len)" and c: "steady_clock (p :: 'l platform)"
    and inv: "loop_inv p ls"
  shows "loop_inv p (work_loop_upto n p ls)"
  using inv
proof (induction n arbitrary: ls)
  case 0
  then show ?case by simp
next
  case (Suc n)
  obtain s out la where ls: "ls = (s, out, la)" by (cases ls)
  obtain s1 out1 la1 again where
    it: "work_iteration p (s, out, la) = ((s1, out1, la1), again)"
    by (rule work_iteration_result)
  obtain txbuf s2 out2 where
    b: "build_txbuf 0 (replicate TRANSFER_SIZE 0, transmit_to_fifo s, out) = (txbuf, s2, out2)"
    by (metis prod_cases3)
  have 1: "loop_inv p (s1, out1, la1)"
    using work_iteration_estimate(2) [OF L c Suc.prems [unfolded ls] it b] .
  show ?case
    unfolding ls using 1 Suc.IH [OF 1] by (cases again) (simp_all add: it)
qed

subsection \<open>The bound on the estimate\<close>

text \<open>
  C5. The code sets a negative estimate to 0 and tests the headroom before it places a
  byte, but both are defeated when the clock jumps: the drain is subtracted in
  \<open>unsigned long\<close> and stored back into the \<open>int\<close>, so a step of 2061585 jiffies
  (with \<open>HZ\<close> = 1000) after two bytes leaves the estimate at 2147483467 instead of 0;
  in the next pass the headroom test \<open>out + 1000 < 127000\<close> overflows, two more bytes
  are placed with the estimate far above 127000, and the estimate is negative when the
  pass ends.
\<close>

theorem occupancy_bound_counterexample:
  "sint (fst (snd (work_loop_upto 2 stalled_platform
      (work_start stalled_platform queued_driver)))) < 0"
proof -
  let ?P = "stalled_platform"
  let ?S0 = "queued_driver\<lparr>jiffies_reads := jiffies_reads queued_driver + 1\<rparr>"
  have ws: "work_start ?P queued_driver = (?S0, 0, 0)"
    by (simp add: work_start_def stalled_platform_def queued_driver_def fresh_driver_def)
  have rate: "MIDI_MILLIBYTES_PER_JIFFIE ?P = 3125"
    by (simp add: MIDI_MILLIBYTES_PER_JIFFIE_def stalled_platform_def)
  have clock: "jiffies_at ?P (Suc 0) = 2061585" "jiffies_at ?P 2 = 2061585"
    by (simp_all add: stalled_platform_def)
  \<comment> \<open>first pass: two bytes are sent, then the clock has jumped\<close>
  have q0: "g_midi_output_substream ?S0 = None" "\<not> g_ledFlashDurationChanged ?S0"
    "spi_fifo_out ?S0 = [1, 2, 3, 4, 5, 6, 7, 8, 9, 10]" "jiffies_reads ?S0 = Suc 0"
    by (simp_all add: queued_driver_def fresh_driver_def)
  have b1: "build_txbuf 0 (replicate TRANSFER_SIZE 0, transmit_to_fifo ?S0, 0) =
     ([0x0f, 1, 0x0f, 2], ?S0\<lparr>spi_fifo_out := [3, 4, 5, 6, 7, 8, 9, 10]\<rparr>, 2000)"
    unfolding transmit_to_fifo_None [OF q0(1)] build_txbuf_no_led [OF q0(2)] q0(3)
    by (simp add: PISOUND_OUTPUT_BUFFER_SIZE_MILLIBYTES_def)
  obtain s1 out1 la1 ag1 where
    it1: "work_iteration ?P (?S0, 0, 0) = ((s1, out1, la1), ag1)"
    by (rule work_iteration_result)
  note f1 = work_iteration_fields [OF it1 b1]
  have jr: "jiffies_reads queued_driver = 0"
    by (simp add: queued_driver_def fresh_driver_def)
  have la1: "la1 = 2061585"
    using f1(9) by (simp add: jr clock)
  have out1: "out1 = 2147483467"
    using work_iteration_props(3) [OF it1 b1] unfolding la1 rate by simp
  have ag1: "ag1"
    using work_iteration_props(4) [OF it1 b1] by simp
  have t0: "transmit_to_fifo ?S0 = ?S0"
    by (rule transmit_to_fifo_None [OF q0(1)])
  have q1: "g_midi_output_substream s1 = None" "\<not> g_ledFlashDurationChanged s1"
    "spi_fifo_out s1 = [3, 4, 5, 6, 7, 8, 9, 10]" "jiffies_reads s1 = 2"
  proof -
    show "g_midi_output_substream s1 = None" using f1(6) unfolding t0 q0(1) .
    show "\<not> g_ledFlashDurationChanged s1" by (rule f1(3))
    show "spi_fifo_out s1 = [3, 4, 5, 6, 7, 8, 9, 10]" using f1(5) by simp
    show "jiffies_reads s1 = 2" using f1(8) by (simp add: jr)
  qed
  \<comment> \<open>second pass: the headroom test overflows, two more bytes are sent\<close>
  have b2: "build_txbuf 0 (replicate TRANSFER_SIZE 0, transmit_to_fifo s1, out1) =
     ([0x0f, 3, 0x0f, 4], s1\<lparr>spi_fifo_out := [5, 6, 7, 8, 9, 10]\<rparr>, out1 + 1000 + 1000)"
    unfolding transmit_to_fifo_None [OF q1(1)] build_txbuf_no_led [OF q1(2)] q1(3) out1
    by (simp add: PISOUND_OUTPUT_BUFFER_SIZE_MILLIBYTES_def)
  obtain s2 out2 la2 ag2 where
    it2: "work_iteration ?P (s1, out1, la1) = ((s2, out2, la2), ag2)"
    by (rule work_iteration_result)
  have la2: "la2 = la1"
    using work_iteration_fields(9) [OF it2 b2] unfolding la1 by (simp add: q1(4) clock)
  have out2: "out2 = out1 + 1000 + 1000"
    using work_iteration_props(3) [OF it2 b2] unfolding la2 by simp
  have "work_loop_upto 2 ?P (work_start ?P queued_driver) = (s2, out2, la2)"
    unfolding ws numeral_2_eq_2 work_loop_upto.simps it1 prod.case using ag1
    by (simp only: if_True it2 prod.case if_cancel)
  then show ?thesis
    unfolding out2 out1 by simp
qed

text \<open>
  The overflow is the only way to break the bound. Where \<open>unsigned long\<close> has at least
  32 bits and the clock is steady (the drain between two reads of the clock stays below
  \<open>2^31\<close> millibytes), at every point of an activation (after any number of passes)
  the estimate is not negative, it is not negative after the next block is built either,
  and that block carries an outbound byte in a slot pair only if the estimate at that
  moment plus 1000 is below 127000.
\<close>

theorem occupancy_bound:
  assumes L: "32 \<le> LENGTH('l::len)" and c: "steady_clock (p :: 'l platform)"
    and run: "work_loop_upto n p (work_start p s) = (s', out', la')"
    and b: "build_txbuf 0 (replicate TRANSFER_SIZE 0, transmit_to_fifo s', out') =
      (txbuf, s2, out2)"
  shows "0 \<le> sint out' \<and> 0 \<le> sint out2 \<and>
    (txbuf ! 0 = 0x0f \<longrightarrow> sint out' + 1000 < PISOUND_OUTPUT_BUFFER_SIZE_MILLIBYTES) \<and>
    (txbuf ! 2 = 0x0f \<longrightarrow>
       sint (if txbuf ! 0 = 0x0f then out' + 1000 else out') + 1000 <
         PISOUND_OUTPUT_BUFFER_SIZE_MILLIBYTES)"
proof -
  have "loop_inv p (s', out', la')"
    using loop_inv_upto [OF L c loop_inv_start, of n s] run by simp
  then have o: "0 \<le> sint out'" "sint out' < PISOUND_OUTPUT_BUFFER_SIZE_MILLIBYTES"
    by (simp_all add: loop_inv_def)
  from build_estimate [OF b o] o show ?thesis by blast
qed

lemma quiet_clock_step: "clock_step quiet_platform k = 1"
proof -
  have "(word_of_nat (Suc k) :: 64 word) - word_of_nat k = 1"
    by simp
  then show ?thesis
    by (simp add: clock_step_def quiet_platform_def)
qed

lemma quiet_rate: "MIDI_MILLIBYTES_PER_JIFFIE quiet_platform = 3125"
  by (simp add: MIDI_MILLIBYTES_PER_JIFFIE_def quiet_platform_def)

lemma quiet_steady: "steady_clock quiet_platform"
  by (simp add: steady_clock_def quiet_clock_step quiet_rate)

theorem occupancy_bound_witness:
  "32 \<le> LENGTH(64) \<and> steady_clock quiet_platform \<and>
   (\<exists>s' out' la' txbuf s2 out2.
      work_loop_upto 1 quiet_platform (work_start quiet_platform queued_driver) =
        (s', out', la') \<and>
      build_txbuf 0 (replicate TRANSFER_SIZE 0, transmit_to_fifo s', out') =
        (txbuf, s2, out2) \<and>
      0 \<le> sint out' \<and> 0 \<le> sint out2 \<and>
      (txbuf ! 0 = 0x0f \<longrightarrow> sint out' + 1000 < PISOUND_OUTPUT_BUFFER_SIZE_MILLIBYTES) \<and>
      (txbuf ! 2 = 0x0f \<longrightarrow>
         sint (if txbuf ! 0 = 0x0f then out' + 1000 else out') + 1000 <
           PISOUND_OUTPUT_BUFFER_SIZE_MILLIBYTES))"
proof -
  have L: "32 \<le> LENGTH(64)" by simp
  obtain s' out' la' where
    run: "work_loop_upto 1 quiet_platform (work_start quiet_platform queued_driver) =
      (s', out', la')"
    by (metis prod_cases3)
  obtain txbuf s2 out2 where
    b: "build_txbuf 0 (replicate TRANSFER_SIZE 0, transmit_to_fifo s', out') = (txbuf, s2, out2)"
    by (metis prod_cases3)
  from occupancy_bound [OF L quiet_steady run b] L quiet_steady run b
  show ?thesis by blast
qed

subsection \<open>Termination on a quiet card\<close>

lemma quiet_rx_block:
  assumes "quiet_card p"
  shows "rx_block p s ! 0 = 0" "rx_block p s ! 2 = 0"
  using assms
  by (auto simp: quiet_card_def rx_block_def TRANSFER_SIZE_def split: option.split)

lemma quiet_pass:
  assumes L: "32 \<le> LENGTH('l::len)" and c: "steady_clock (p :: 'l platform)"
    and q: "quiet_card p"
    and st: "quiet_state p (s, out, la)"
    and it: "work_iteration p (s, out, la) = ((s', out', la'), again)"
  shows "quiet_state p (s', out', la')"
    and "spi_fifo_out s' = drop 2 (spi_fifo_out s)"
    and "sint out' =
      max 0 (sint out + 1000 * int (min 2 (length (spi_fifo_out s))) -
        int (clock_step p (jiffies_reads s - 1) * MIDI_MILLIBYTES_PER_JIFFIE p))"
    and "again \<longleftrightarrow> spi_fifo_out s' \<noteq> [] \<or> out' \<noteq> 0"
    and "jiffies_reads s' = jiffies_reads s + 1"
proof -
  from st have dev: "pisnd_spi_device s" and sub: "g_midi_output_substream s = None"
    and led: "\<not> g_ledFlashDurationChanged s" and inv: "loop_inv p (s, out, la)"
    and room: "sint out + 1000 * int (length (spi_fifo_out s)) < 127000"
    by (simp_all add: quiet_state_def PISOUND_OUTPUT_BUFFER_SIZE_MILLIBYTES_def)
  from inv have o: "0 \<le> sint out" "sint out < 127000"
    by (simp_all add: loop_inv_def PISOUND_OUTPUT_BUFFER_SIZE_MILLIBYTES_def)
  note a = sint_add_1000 [OF o]
  have t: "transmit_to_fifo s = s" by (rule transmit_to_fifo_None [OF sub])
  obtain txbuf s2 out2 where
    b: "build_txbuf 0 (replicate TRANSFER_SIZE 0, transmit_to_fifo s, out) = (txbuf, s2, out2)"
    by (metis prod_cases3)
  have f2: "spi_fifo_out s2 = drop 2 (spi_fifo_out s)"
  proof (cases "spi_fifo_out s")
    case Nil
    then show ?thesis
      using b unfolding t build_txbuf_no_led [OF led]
      by (auto split: if_splits)
  next
    case (Cons v r)
    then show ?thesis
      using b room unfolding t build_txbuf_no_led [OF led]
      by (cases r) (auto simp: a PISOUND_OUTPUT_BUFFER_SIZE_MILLIBYTES_def split: if_splits)
  qed
  note e = build_estimate [OF b inv [unfolded loop_inv_def prod.case, THEN conjunct1]
    inv [unfolded loop_inv_def prod.case, THEN conjunct2, THEN conjunct1]]
  have o2: "sint out2 = sint out + 1000 * int (min 2 (length (spi_fifo_out s)))"
    using e(5) unfolding t f2 by (simp add: min_def) 
  note f = work_iteration_fields [OF it b]
  note g = build_frame_fields [OF b]
  note w = work_iteration_estimate [OF L c inv it b]
  show 2: "spi_fifo_out s' = drop 2 (spi_fifo_out s)"
    using f(5) f2 by simp
  show 3: "sint out' =
      max 0 (sint out + 1000 * int (min 2 (length (spi_fifo_out s))) -
        int (clock_step p (jiffies_reads s - 1) * MIDI_MILLIBYTES_PER_JIFFIE p))"
    using w(1) unfolding o2 .
  show "again \<longleftrightarrow> spi_fifo_out s' \<noteq> [] \<or> out' \<noteq> 0"
    using work_iteration_props(4) [OF it b] g(7) q
    by (simp add: quiet_rx_block [OF q] quiet_card_def f(5))
  show "jiffies_reads s' = jiffies_reads s + 1" by (rule f(8))
  have "sint out' \<le> sint out + 1000 * int (min 2 (length (spi_fifo_out s)))"
    unfolding 3 using o by simp
  then have "sint out' + 1000 * int (length (spi_fifo_out s')) < 127000"
    unfolding 2 using room by (simp add: min_def split: if_splits)
  then show "quiet_state p (s', out', la')"
    using dev f(1,3,6) w(2)
    by (simp add: quiet_state_def t sub PISOUND_OUTPUT_BUFFER_SIZE_MILLIBYTES_def)
qed


lemma work_loop_pass:
  assumes "work_iteration p (s, out, la) = ((s', out', la'), again)"
  shows "work_loop p (s, out, la) = (if again then work_loop p (s', out', la') else Some s')"
  by (subst work_loop.simps) (simp add: assms)

text \<open>
  With the outbound queue empty, the loop waits for the clock to move; \<open>m\<close> is the
  number of passes until it does.
\<close>

lemma drain_wait:
  assumes L: "32 \<le> LENGTH('l::len)" and c: "steady_clock (p :: 'l platform)"
    and q: "quiet_card p" and r: "0 < MIDI_MILLIBYTES_PER_JIFFIE p"
    and less: "\<And>s' out' la'. quiet_state p (s', out', la') \<Longrightarrow> spi_fifo_out s' = [] \<Longrightarrow>
      sint out' < sint out \<Longrightarrow> \<exists>r. work_loop p (s', out', la') = Some r \<and> spi_fifo_out r = []"
    and st: "quiet_state p (s, out, la)" and e: "spi_fifo_out s = []"
    and m: "clock_step p (jiffies_reads s - 1 + m) \<noteq> 0"
  shows "\<exists>r. work_loop p (s, out, la) = Some r \<and> spi_fifo_out r = []"
  using st e m
proof (induction m arbitrary: s la)
  case 0
  obtain s' out' la' again where
    it: "work_iteration p (s, out, la) = ((s', out', la'), again)"
    by (rule work_iteration_result)
  note p = quiet_pass [OF L c q "0.prems"(1) it]
  have e': "spi_fifo_out s' = []" using p(2) "0.prems"(2) by simp
  have o: "0 \<le> sint out"
    using "0.prems"(1) by (simp add: quiet_state_def loop_inv_def)
  have pos: "0 < int (clock_step p (jiffies_reads s - 1) * MIDI_MILLIBYTES_PER_JIFFIE p)"
    using "0.prems"(3) r by simp
  show ?case
  proof (cases again)
    case False
    then show ?thesis using work_loop_pass [OF it] e' by simp
  next
    case True
    then have "out' \<noteq> 0" using p(4) e' by simp
    then have "sint out' \<noteq> 0" by (metis signed_eq_0_iff)
    then have "sint out' < sint out"
      using p(3) pos "0.prems"(2) by (simp add: max_def split: if_splits)
    from less [OF p(1) e' this] True show ?thesis
      using work_loop_pass [OF it] by simp
  qed
next
  case (Suc m)
  obtain s' out' la' again where
    it: "work_iteration p (s, out, la) = ((s', out', la'), again)"
    by (rule work_iteration_result)
  note p = quiet_pass [OF L c q Suc.prems(1) it]
  have e': "spi_fifo_out s' = []" using p(2) Suc.prems(2) by simp
  have k: "0 < jiffies_reads s"
    using Suc.prems(1) by (simp add: quiet_state_def loop_inv_def)
  show ?case
  proof (cases again)
    case False
    then show ?thesis using work_loop_pass [OF it] e' by simp
  next
    case True
    then have nz: "out' \<noteq> 0" using p(4) e' by simp
    then have snz: "sint out' \<noteq> 0" by (metis signed_eq_0_iff)
    show ?thesis
    proof (cases "clock_step p (jiffies_reads s - 1) = 0")
      case True
      then have "sint out' = sint out"
        using p(3) snz Suc.prems(2) by (simp add: max_def split: if_splits)
      then have same: "out' = out" by (rule signed_word_eqI)
      have "clock_step p (jiffies_reads s' - 1 + m) \<noteq> 0"
        using Suc.prems(3) k unfolding p(5) by simp
      from Suc.IH [OF p(1) [unfolded same] e' this] \<open>again\<close> show ?thesis
        using work_loop_pass [OF it] unfolding same by simp
    next
      case False
      with r have pos: "0 < int (clock_step p (jiffies_reads s - 1) * MIDI_MILLIBYTES_PER_JIFFIE p)"
        by simp
      have "sint out' < sint out"
        using p(3) pos snz Suc.prems(2) by (simp add: max_def split: if_splits)
      from less [OF p(1) e' this] \<open>again\<close> show ?thesis
        using work_loop_pass [OF it] by simp
    qed
  qed
qed

lemma drain_phase:
  assumes L: "32 \<le> LENGTH('l::len)" and c: "steady_clock (p :: 'l platform)"
    and q: "quiet_card p" and r: "0 < MIDI_MILLIBYTES_PER_JIFFIE p"
    and adv: "clock_advances p"
    and st: "quiet_state p (s, out, la)" and e: "spi_fifo_out s = []"
  shows "\<exists>r. work_loop p (s, out, la) = Some r \<and> spi_fifo_out r = []"
  using st e
proof (induction "nat (sint out)" arbitrary: s out la rule: less_induct)
  case less
  have o: "0 \<le> sint out"
    using less.prems(1) by (simp add: quiet_state_def loop_inv_def)
  from adv obtain m where m: "clock_step p (jiffies_reads s - 1 + m) \<noteq> 0"
    unfolding clock_advances_def by blast
  show ?case
  proof (rule drain_wait [OF L c q r _ less.prems m])
    fix s' out' la'
    assume st': "quiet_state p (s', out', la')" and e': "spi_fifo_out s' = []"
      and lt: "sint out' < sint out"
    have "0 \<le> sint out'"
      using st' by (simp add: quiet_state_def loop_inv_def)
    with lt o have "nat (sint out') < nat (sint out)" by simp
    from less.hyps [OF this st' e']
    show "\<exists>r. work_loop p (s', out', la') = Some r \<and> spi_fifo_out r = []" .
  qed
qed

lemma send_phase:
  assumes L: "32 \<le> LENGTH('l::len)" and c: "steady_clock (p :: 'l platform)"
    and q: "quiet_card p" and r: "0 < MIDI_MILLIBYTES_PER_JIFFIE p"
    and adv: "clock_advances p"
    and st: "quiet_state p (s, out, la)"
  shows "\<exists>r. work_loop p (s, out, la) = Some r \<and> spi_fifo_out r = []"
  using st
proof (induction "length (spi_fifo_out s)" arbitrary: s out la rule: less_induct)
  case less
  show ?case
  proof (cases "spi_fifo_out s = []")
    case True
    from drain_phase [OF L c q r adv less.prems True] show ?thesis .
  next
    case False
    obtain s' out' la' again where
      it: "work_iteration p (s, out, la) = ((s', out', la'), again)"
      by (rule work_iteration_result)
    note p = quiet_pass [OF L c q less.prems it]
    have shorter: "length (spi_fifo_out s') < length (spi_fifo_out s)"
      unfolding p(2) using False by simp
    show ?thesis
    proof (cases again)
      case True
      from less.hyps [OF shorter p(1)] True show ?thesis
        using work_loop_pass [OF it] by simp
    next
      case False
      then have "spi_fifo_out s' = []" using p(4) by simp
      with False show ?thesis using work_loop_pass [OF it] by simp
    qed
  qed
qed

text \<open>
  Where the drain of one clock step fits the \<open>int\<close>, the handler does what it is
  meant to: with 10 bytes in the outbound queue, no LED command pending, no output
  substream, the device present, a card that never asserts its data-available line and
  never returns a non-zero validity byte, and a clock that is steady, does not stand
  still for ever and drains at a positive rate, \<open>pisnd_work_handler\<close> returns, and
  the outbound queue is empty when it does.
\<close>

theorem session_terminates:
  assumes L: "32 \<le> LENGTH('l::len)" and c: "steady_clock (p :: 'l platform)"
    and adv: "clock_advances p" and r: "0 < MIDI_MILLIBYTES_PER_JIFFIE p"
    and q: "quiet_card p"
    and dev: "pisnd_spi_device s" and sub: "g_midi_output_substream s = None"
    and led: "\<not> g_ledFlashDurationChanged s"
    and ten: "length (spi_fifo_out s) = 10"
  shows "\<exists>s'. pisnd_work_handler p s = Some s' \<and> spi_fifo_out s' = []"
proof -
  obtain s0 out0 la0 where ws: "work_start p s = (s0, out0, la0)"
    by (metis prod_cases3)
  have f: "s0 = s\<lparr>jiffies_reads := jiffies_reads s + 1\<rparr>" "out0 = 0"
    using ws by (simp_all add: work_start_def)
  have "loop_inv p (s0, out0, la0)"
    using loop_inv_start [of p s] unfolding ws .
  then have "quiet_state p (s0, out0, la0)"
    using dev sub led ten
    by (simp add: quiet_state_def f PISOUND_OUTPUT_BUFFER_SIZE_MILLIBYTES_def)
  from send_phase [OF L c q r adv this]
  obtain s1 where 1: "work_loop p (s0, out0, la0) = Some s1" "spi_fifo_out s1 = []"
    by blast
  have "spi_fifo_out (pisnd_midi_recv_callback s1) = []"
    using 1(2) by (simp add: pisnd_midi_recv_callback_eq)
  then show ?thesis
    using dev 1 by (simp add: pisnd_work_handler_def ws)
qed

theorem session_terminates_witness:
  "32 \<le> LENGTH(64) \<and> steady_clock quiet_platform \<and> clock_advances quiet_platform \<and>
   0 < MIDI_MILLIBYTES_PER_JIFFIE quiet_platform \<and> quiet_card quiet_platform \<and>
   pisnd_spi_device queued_driver \<and> g_midi_output_substream queued_driver = None \<and>
   \<not> g_ledFlashDurationChanged queued_driver \<and> length (spi_fifo_out queued_driver) = 10 \<and>
   (\<exists>s'. pisnd_work_handler quiet_platform queued_driver = Some s' \<and> spi_fifo_out s' = [])"
proof -
  have L: "32 \<le> LENGTH(64)" by simp
  have adv: "clock_advances quiet_platform"
    by (simp add: clock_advances_def quiet_clock_step)
  have r: "0 < MIDI_MILLIBYTES_PER_JIFFIE quiet_platform"
    by (simp add: quiet_rate)
  have q: "quiet_card quiet_platform"
    by (simp add: quiet_card_def quiet_platform_def TRANSFER_SIZE_def)
  have dev: "pisnd_spi_device queued_driver"
    and sub: "g_midi_output_substream queued_driver = None"
    and led: "\<not> g_ledFlashDurationChanged queued_driver"
    and ten: "length (spi_fifo_out queued_driver) = 10"
    by (simp_all add: queued_driver_def fresh_driver_def)
  from session_terminates [OF L quiet_steady adv r q dev sub led ten]
    L quiet_steady adv r q dev sub led ten
  show ?thesis by blast
qed

subsection \<open>A clock that leaps\<close>

text \<open>
  On the leaping clock every step is \<open>2^32\<close> jiffies. The drain of one step,
  \<open>2^32 * 3125\<close>, is 0 in the low 32 bits, so storing the difference back into the
  \<open>int\<close> leaves the estimate as it was.
\<close>

lemma leap_rate: "MIDI_MILLIBYTES_PER_JIFFIE leaping_platform = 3125"
  by (simp add: MIDI_MILLIBYTES_PER_JIFFIE_def leaping_platform_def)

lemma leap_quiet: "quiet_card leaping_platform"
  by (simp add: quiet_card_def leaping_platform_def TRANSFER_SIZE_def)

lemma leap_step:
  "jiffies_at leaping_platform (Suc k) - jiffies_at leaping_platform k = 4294967296"
  by (simp add: leaping_platform_def algebra_simps)

lemma leap_clock_step: "clock_step leaping_platform k = 4294967296"
  unfolding clock_step_def leap_step by simp

text \<open>
  The leaping clock with the queued driver is an input of the kind that C4 describes;
  of what the termination proof above asks, only the steadiness of the clock is
  missing.
\<close>

lemma leap_premises:
  "quiet_card leaping_platform \<and> clock_advances leaping_platform \<and>
   0 < MIDI_MILLIBYTES_PER_JIFFIE leaping_platform \<and> \<not> steady_clock leaping_platform \<and>
   pisnd_spi_device queued_driver \<and> g_midi_output_substream queued_driver = None \<and>
   \<not> g_ledFlashDurationChanged queued_driver \<and> length (spi_fifo_out queued_driver) = 10"
  by (simp add: leap_quiet clock_advances_def steady_clock_def leap_clock_step leap_rate
      queued_driver_def fresh_driver_def)








end
